theory Spec2Isabelle
  imports Main "HOL-Library.AList"
begin

section \<open>Data model\<close>

text \<open>
  Token ids are Python integers. A \<open>bytes\<close> object is a list of byte values
  (each below 256), a \<open>str\<close> is a list of code points. Dictionaries are association
  lists in insertion order: storing under a key that is present keeps its position
  (\<open>AList.update\<close>), as a Python \<open>dict\<close> does.
\<close>

type_synonym token = int
type_synonym bytes = "nat list"
type_synonym str = "nat list"
type_synonym pair = "token \<times> token"

datatype error =
    AssertionError | ValueError | KeyError | NameError | AttributeError | UnicodeEncodeError

section \<open>base.py: helper functions\<close>

text \<open>
  \<open>get_stats(ids, counts)\<close>: for every pair of \<open>zip(ids, ids[1:])\<close>, in order,
  \<open>counts[pair] = counts.get(pair, 0) + 1\<close>. The caller passes the dictionary to
  update (\<open>[]\<close> for the default \<open>None\<close>).
\<close>

definition bump :: "pair \<Rightarrow> (pair \<times> int) list \<Rightarrow> (pair \<times> int) list" where
  "bump p counts =
     AList.update p ((case map_of counts p of None \<Rightarrow> 0 | Some c \<Rightarrow> c) + 1) counts"

definition get_stats :: "token list \<Rightarrow> (pair \<times> int) list \<Rightarrow> (pair \<times> int) list" where
  "get_stats ids counts = fold bump (zip ids (drop 1 ids)) counts"

text \<open>
  \<open>merge(ids, pair, idx)\<close>: the \<open>while i < len(ids)\<close> loop over the local variables
  \<open>ids\<close>, \<open>newids\<close> and \<open>i\<close>, one call of \<open>merge_while\<close> per iteration.
\<close>

record merge_vars =
  m_ids :: "token list"
  m_newids :: "token list"
  m_i :: nat

function merge_while :: "pair \<Rightarrow> token \<Rightarrow> merge_vars \<Rightarrow> merge_vars" where
  "merge_while pr idx s =
     (if m_i s < length (m_ids s) then
        (if m_ids s ! m_i s = fst pr \<and> m_i s < length (m_ids s) - 1
            \<and> m_ids s ! (m_i s + 1) = snd pr
         then merge_while pr idx (s\<lparr>m_newids := m_newids s @ [idx], m_i := m_i s + 2\<rparr>)
         else merge_while pr idx
                (s\<lparr>m_newids := m_newids s @ [m_ids s ! m_i s], m_i := m_i s + 1\<rparr>))
      else s)"
  by pat_completeness auto
termination
  by (relation "measure (\<lambda>(pr, idx, s). length (m_ids s) - m_i s)") auto

definition merge :: "token list \<Rightarrow> pair \<Rightarrow> token \<Rightarrow> token list" where
  "merge ids pr idx = m_newids (merge_while pr idx \<lparr>m_ids = ids, m_newids = [], m_i = 0\<rparr>)"

text \<open>
  The Merge Engine as the specification words it: scan left to right, replace an
  occurrence of the pair by \<open>idx\<close> and resume right after it.
\<close>

fun merge_spec :: "token list \<Rightarrow> pair \<Rightarrow> token \<Rightarrow> token list" where
  "merge_spec (x # y # rest) pr idx =
     (if x = fst pr \<and> y = snd pr then idx # merge_spec rest pr idx
      else x # merge_spec (y # rest) pr idx)"
| "merge_spec ids pr idx = ids"

section \<open>Python built-ins and library calls\<close>

text \<open>
  \<open>max(d, key=d.get)\<close> and \<open>min(d, key=f)\<close> walk the keys in insertion order and
  keep the first extreme one (a later key replaces the current one only when it is
  strictly greater, or strictly smaller); both raise \<open>ValueError\<close> on an empty
  dictionary. The key of \<open>min\<close> in \<open>_encode_chunk\<close> is a merge id or
  \<open>float("inf")\<close>: \<open>Some idx\<close> or \<open>None\<close> here, \<open>None\<close> above every id.
\<close>

fun max_by :: "('a \<Rightarrow> int) \<Rightarrow> 'a \<Rightarrow> 'a list \<Rightarrow> 'a" where
  "max_by key best [] = best"
| "max_by key best (x # xs) = max_by key (if key best < key x then x else best) xs"

definition py_max :: "'a list \<Rightarrow> ('a \<Rightarrow> int) \<Rightarrow> error + 'a" where
  "py_max xs key = (case xs of [] \<Rightarrow> Inl ValueError | x # rest \<Rightarrow> Inr (max_by key x rest))"

fun key_lt :: "int option \<Rightarrow> int option \<Rightarrow> bool" where
  "key_lt (Some a) (Some b) = (a < b)"
| "key_lt (Some a) None = True"
| "key_lt None k = False"

fun min_by :: "('a \<Rightarrow> int option) \<Rightarrow> 'a \<Rightarrow> 'a list \<Rightarrow> 'a" where
  "min_by key best [] = best"
| "min_by key best (x # xs) = min_by key (if key_lt (key x) (key best) then x else best) xs"

definition py_min :: "'a list \<Rightarrow> ('a \<Rightarrow> int option) \<Rightarrow> error + 'a" where
  "py_min xs key = (case xs of [] \<Rightarrow> Inl ValueError | x # rest \<Rightarrow> Inr (min_by key x rest))"

text \<open>
  \<open>s.encode("utf-8")\<close>: one to four bytes per code point; a surrogate code point
  makes the whole call raise \<open>UnicodeEncodeError\<close>. A Python \<open>str\<close> holds code
  points below \<open>0x110000\<close> only; a list element beyond them stands for no string,
  and the model refuses it like a surrogate.
\<close>

definition is_surrogate :: "nat \<Rightarrow> bool" where
  "is_surrogate c = (0xD800 \<le> c \<and> c \<le> 0xDFFF)"

definition encodable :: "nat \<Rightarrow> bool" where
  "encodable c = (c < 0x110000 \<and> \<not> is_surrogate c)"

definition utf8_char :: "nat \<Rightarrow> bytes" where
  "utf8_char c =
     (if c < 0x80 then [c]
      else if c < 0x800 then [0xC0 + c div 64, 0x80 + c mod 64]
      else if c < 0x10000 then [0xE0 + c div 4096, 0x80 + c div 64 mod 64, 0x80 + c mod 64]
      else [0xF0 + c div 262144, 0x80 + c div 4096 mod 64, 0x80 + c div 64 mod 64,
            0x80 + c mod 64])"

definition utf8_encode :: "str \<Rightarrow> error + bytes" where
  "utf8_encode s =
     (if list_all encodable s then Inr (concat (map utf8_char s))
      else Inl UnicodeEncodeError)"

text \<open>
  \<open>b.decode("utf-8", errors="replace")\<close>: well-formed sequences decode to their code
  point; every maximal ill-formed prefix (a bad start byte, or a start byte with the
  continuation bytes that are still admissible after it) becomes one \<open>U+FFFD\<close>. It
  never raises.
\<close>

definition cont :: "nat \<Rightarrow> bool" where
  "cont b = (0x80 \<le> b \<and> b \<le> 0xBF)"

definition second_ok :: "nat \<Rightarrow> nat \<Rightarrow> bool" where
  "second_ok b0 b1 =
     (if b0 = 0xE0 then 0xA0 \<le> b1 \<and> b1 \<le> 0xBF
      else if b0 = 0xED then 0x80 \<le> b1 \<and> b1 \<le> 0x9F
      else if b0 = 0xF0 then 0x90 \<le> b1 \<and> b1 \<le> 0xBF
      else if b0 = 0xF4 then 0x80 \<le> b1 \<and> b1 \<le> 0x8F
      else cont b1)"

definition REPL :: nat where
  "REPL = 0xFFFD"

fun utf8_decode :: "bytes \<Rightarrow> str" where
  "utf8_decode [] = []"
| "utf8_decode (b0 # bs) =
     (if b0 < 0x80 then b0 # utf8_decode bs
      else if 0xC2 \<le> b0 \<and> b0 \<le> 0xDF then
        (case bs of
           [] \<Rightarrow> [REPL]
         | b1 # r1 \<Rightarrow>
             if cont b1 then ((b0 - 0xC0) * 64 + (b1 - 0x80)) # utf8_decode r1
             else REPL # utf8_decode bs)
      else if 0xE0 \<le> b0 \<and> b0 \<le> 0xEF then
        (case bs of
           [] \<Rightarrow> [REPL]
         | b1 # r1 \<Rightarrow>
             if second_ok b0 b1 then
               (case r1 of
                  [] \<Rightarrow> [REPL]
                | b2 # r2 \<Rightarrow>
                    if cont b2 then
                      ((b0 - 0xE0) * 4096 + (b1 - 0x80) * 64 + (b2 - 0x80)) # utf8_decode r2
                    else REPL # utf8_decode r1)
             else REPL # utf8_decode bs)
      else if 0xF0 \<le> b0 \<and> b0 \<le> 0xF4 then
        (case bs of
           [] \<Rightarrow> [REPL]
         | b1 # r1 \<Rightarrow>
             if second_ok b0 b1 then
               (case r1 of
                  [] \<Rightarrow> [REPL]
                | b2 # r2 \<Rightarrow>
                    if cont b2 then
                      (case r2 of
                         [] \<Rightarrow> [REPL]
                       | b3 # r3 \<Rightarrow>
                           if cont b3 then
                             ((b0 - 0xF0) * 262144 + (b1 - 0x80) * 4096 + (b2 - 0x80) * 64
                                + (b3 - 0x80)) # utf8_decode r3
                           else REPL # utf8_decode r2)
                    else REPL # utf8_decode r1)
             else REPL # utf8_decode bs)
      else REPL # utf8_decode bs)"

text \<open>String literals of the source, as code points (ASCII only).\<close>

definition str_of :: "string \<Rightarrow> str" where
  "str_of s = map of_char s"

text \<open>\<open>sub in s\<close> on strings: \<open>sub\<close> starts at some position of \<open>s\<close>.\<close>

fun starts_with :: "str \<Rightarrow> str \<Rightarrow> bool" where
  "starts_with [] s = True"
| "starts_with (x # xs) [] = False"
| "starts_with (x # xs) (y # ys) = (x = y \<and> starts_with xs ys)"

fun contains :: "str \<Rightarrow> str \<Rightarrow> bool" where
  "contains sub [] = (sub = [])"
| "contains sub (c # cs) = (starts_with sub (c # cs) \<or> contains sub cs)"

text \<open>
  \<open>re.split("(" + "|".join(re.escape(k) for k in special) + ")", s)\<close>: the pattern is
  one capturing group around an alternation of literal strings, so at each position the
  engine takes the first listed literal that starts there (\<open>first_match\<close>), and the
  result alternates the text before a match and the matched literal, ending with the
  text after the last match. After an empty match the next match must not be empty at
  the same position (\<open>adv\<close>), as in Python 3.7 and later.
\<close>

fun first_match :: "str list \<Rightarrow> str \<Rightarrow> bool \<Rightarrow> str option" where
  "first_match [] rest adv = None"
| "first_match (k # ks) rest adv =
     (if starts_with k rest \<and> (adv \<longrightarrow> k \<noteq> []) then Some k else first_match ks rest adv)"

lemma first_match_Some:
  "first_match ks rest adv = Some k \<Longrightarrow> starts_with k rest \<and> (adv \<longrightarrow> k \<noteq> [])"
  by (induction ks) (auto split: if_splits)

lemma starts_with_length: "starts_with k rest \<Longrightarrow> length k \<le> length rest"
  by (induction k rest rule: starts_with.induct) auto

function re_split_loop :: "str list \<Rightarrow> str \<Rightarrow> str \<Rightarrow> bool \<Rightarrow> str list" where
  "re_split_loop ks seg rest adv =
     (case first_match ks rest adv of
        Some k \<Rightarrow> seg # k # re_split_loop ks [] (drop (length k) rest) (k = [])
      | None \<Rightarrow>
          (case rest of
             [] \<Rightarrow> [seg]
           | c # cs \<Rightarrow> re_split_loop ks (seg @ [c]) cs False))"
  by pat_completeness auto
termination
proof (relation "measure (\<lambda>(ks, seg, rest, adv). 2 * length rest + (if adv then 0 else 1))",
       goal_cases)
  case 1
  show ?case by simp
next
  case (2 ks seg rest adv c cs)
  then show ?case by simp
next
  case (3 ks seg rest adv k)
  from 3 have "starts_with k rest \<and> (adv \<longrightarrow> k \<noteq> [])"
    by (rule first_match_Some)
  then show ?case
    using starts_with_length[of k rest] by (cases k) (auto split: if_splits)
qed

definition re_split :: "str list \<Rightarrow> str \<Rightarrow> str list" where
  "re_split ks s = re_split_loop ks [] s False"

section \<open>The merge loop against its specification\<close>

declare merge_while.simps [simp del]

lemma merge_while_done:
  "\<not> m_i s < length (m_ids s) \<Longrightarrow> merge_while pr idx s = s"
  by (subst merge_while.simps) simp

lemma merge_while_hit:
  "m_i s < length (m_ids s) \<Longrightarrow>
   m_ids s ! m_i s = fst pr \<and> m_i s < length (m_ids s) - 1 \<and> m_ids s ! (m_i s + 1) = snd pr \<Longrightarrow>
   merge_while pr idx s =
     merge_while pr idx (s\<lparr>m_newids := m_newids s @ [idx], m_i := m_i s + 2\<rparr>)"
  by (subst merge_while.simps) simp

lemma merge_while_miss:
  "m_i s < length (m_ids s) \<Longrightarrow>
   \<not> (m_ids s ! m_i s = fst pr \<and> m_i s < length (m_ids s) - 1 \<and> m_ids s ! (m_i s + 1) = snd pr) \<Longrightarrow>
   merge_while pr idx s =
     merge_while pr idx (s\<lparr>m_newids := m_newids s @ [m_ids s ! m_i s], m_i := m_i s + 1\<rparr>)"
  by (subst merge_while.simps) (simp only: if_True if_False)

lemma merge_while_ids: "m_ids (merge_while pr idx s) = m_ids s"
  by (induction pr idx s rule: merge_while.induct) (subst merge_while.simps, simp)

lemma merge_while_newids:
  "m_i s \<le> length (m_ids s) \<Longrightarrow>
   m_newids (merge_while pr idx s) = m_newids s @ merge_spec (drop (m_i s) (m_ids s)) pr idx"
proof (induction pr idx s rule: merge_while.induct)
  case (1 pr idx s)
  show ?case
  proof (cases "m_i s < length (m_ids s)")
    case False
    with "1.prems" show ?thesis by (simp add: merge_while_done)
  next
    case True
    then have d: "drop (m_i s) (m_ids s) = m_ids s ! m_i s # drop (Suc (m_i s)) (m_ids s)"
      by (simp add: Cons_nth_drop_Suc)
    show ?thesis
    proof (cases "m_ids s ! m_i s = fst pr \<and> m_i s < length (m_ids s) - 1
            \<and> m_ids s ! (m_i s + 1) = snd pr")
      case hit: True
      then have lt: "Suc (m_i s) < length (m_ids s)" by auto
      then have d2: "drop (Suc (m_i s)) (m_ids s) =
          m_ids s ! Suc (m_i s) # drop (Suc (Suc (m_i s))) (m_ids s)"
        by (simp add: Cons_nth_drop_Suc)
      from "1.IH"(1)[OF True hit] lt hit show ?thesis
        by (simp add: merge_while_hit[OF True hit] d d2)
    next
      case miss: False
      from "1.IH"(2)[OF True miss] True have ih:
        "m_newids (merge_while pr idx s)
          = m_newids s @ [m_ids s ! m_i s] @ merge_spec (drop (Suc (m_i s)) (m_ids s)) pr idx"
        by (simp add: merge_while_miss[OF True miss])
      show ?thesis
      proof (cases "drop (Suc (m_i s)) (m_ids s)")
        case Nil
        with ih show ?thesis by (simp add: d)
      next
        case (Cons y rest)
        then have lt: "Suc (m_i s) < length (m_ids s)"
          by (metis drop_eq_Nil2 list.distinct(1) not_le)
        with Cons have y: "y = m_ids s ! (m_i s + 1)"
          by (metis Cons_nth_drop_Suc list.inject Suc_eq_plus1)
        from lt have "m_i s < length (m_ids s) - 1" by simp
        with miss y have "\<not> (m_ids s ! m_i s = fst pr \<and> y = snd pr)" by simp
        with ih Cons show ?thesis by (auto simp add: d)
      qed
    qed
  qed
qed

lemma merge_eq_spec: "merge ids pr idx = merge_spec ids pr idx"
  by (simp add: merge_def merge_while_newids)

lemma length_merge_spec_le: "length (merge_spec ids pr idx) \<le> length ids"
  by (induction ids pr idx rule: merge_spec.induct) auto

lemma merge_spec_shrinks:
  "pr \<in> set (zip ids (drop 1 ids)) \<Longrightarrow> length (merge_spec ids pr idx) < length ids"
proof (induction ids pr idx rule: merge_spec.induct)
  case (1 x y rest pr idx)
  show ?case
  proof (cases "x = fst pr \<and> y = snd pr")
    case True
    then show ?thesis using length_merge_spec_le[of rest pr idx] by simp
  next
    case False
    with "1.prems" have "pr \<in> set (zip (y # rest) (drop 1 (y # rest)))"
      by (cases pr) auto
    with "1.IH"(2) False show ?thesis by auto
  qed
qed simp_all

lemma keys_bump: "fst ` set (bump p counts) = insert p (fst ` set counts)"
  by (simp add: bump_def AList.dom_update)

lemma keys_fold_bump: "fst ` set (fold bump ps counts) = fst ` set counts \<union> set ps"
  by (induction ps arbitrary: counts) (auto simp add: keys_bump)

lemma keys_get_stats:
  "fst ` set (get_stats ids counts) = fst ` set counts \<union> set (zip ids (drop 1 ids))"
  by (simp add: get_stats_def keys_fold_bump)

lemma min_by_in: "min_by key best xs \<in> insert best (set xs)"
  by (induction xs arbitrary: best) (auto split: if_splits)

lemma py_min_in: "py_min xs key = Inr x \<Longrightarrow> x \<in> set xs"
  using min_by_in[of key] by (auto simp add: py_min_def split: list.splits)

lemma max_by_in: "max_by key best xs \<in> insert best (set xs)"
  by (induction xs arbitrary: best) (auto split: if_splits)

lemma py_max_in: "py_max xs key = Inr x \<Longrightarrow> x \<in> set xs"
  using max_by_in[of key] by (auto simp add: py_max_def split: list.splits)

section \<open>regex.py: the tokenizer\<close>

text \<open>
  The fields of a \<open>RegexTokenizer\<close>. The compiled pattern is kept as the function it
  is used for, \<open>re.findall(compiled_pattern, text)\<close>: the matching itself is done by
  the \<open>regex\<close> library, outside this repository.
\<close>

record tokenizer =
  merges :: "(pair \<times> token) list"
  pattern :: str
  special_tokens :: "(str \<times> token) list"
  vocab :: "(token \<times> bytes) list"
  compiled_pattern :: "str \<Rightarrow> str list"
  inverse_special_tokens :: "(token \<times> str) list"

text \<open>
  \<open>_build_vocab\<close>: the 256 byte entries, then one entry per merge in table order
  (\<open>vocab[p0] + vocab[p1]\<close> raises \<open>KeyError\<close> on a missing id), then one per
  special token.
\<close>

definition byte_vocab :: "(token \<times> bytes) list" where
  "byte_vocab = map (\<lambda>i. (int i, [i])) [0..<256]"

fun build_merges :: "(pair \<times> token) list \<Rightarrow> (token \<times> bytes) list \<Rightarrow> error + (token \<times> bytes) list" where
  "build_merges [] v = Inr v"
| "build_merges (((p0, p1), idx) # ms) v =
     (case map_of v p0 of
        None \<Rightarrow> Inl KeyError
      | Some b0 \<Rightarrow>
          (case map_of v p1 of
             None \<Rightarrow> Inl KeyError
           | Some b1 \<Rightarrow> build_merges ms (AList.update idx (b0 @ b1) v)))"

fun build_specials :: "(str \<times> token) list \<Rightarrow> (token \<times> bytes) list \<Rightarrow> error + (token \<times> bytes) list" where
  "build_specials [] v = Inr v"
| "build_specials ((special, idx) # sp) v =
     (case utf8_encode special of
        Inl e \<Rightarrow> Inl e
      | Inr b \<Rightarrow> build_specials sp (AList.update idx b v))"

definition build_vocab :: "(pair \<times> token) list \<Rightarrow> (str \<times> token) list \<Rightarrow> error + (token \<times> bytes) list" where
  "build_vocab mrg sp =
     (case build_merges mrg byte_vocab of
        Inl e \<Rightarrow> Inl e
      | Inr v \<Rightarrow> build_specials sp v)"

text \<open>
  \<open>RegexTokenizer.__init__\<close>, after \<open>Tokenizer.__init__\<close>: no merges, no special
  tokens, the vocabulary \<open>_build_vocab()\<close> of the empty tables, which is
  \<open>byte_vocab\<close>. \<open>pat\<close> is the pattern string in use and \<open>findall\<close> its compiled
  form.
\<close>

definition RegexTokenizer_init :: "str \<Rightarrow> (str \<Rightarrow> str list) \<Rightarrow> tokenizer" where
  "RegexTokenizer_init pat findall =
     \<lparr>merges = [], pattern = pat, special_tokens = [], vocab = byte_vocab,
      compiled_pattern = findall, inverse_special_tokens = []\<rparr>"

text \<open>
  \<open>train\<close>: \<open>[list(ch.encode("utf-8")) for ch in text_chunks]\<close>, then the
  \<open>for i in range(num_merges)\<close> loop (\<open>n\<close> rounds left, round index \<open>i\<close>). The
  tokenizer is assigned only after the loop.
\<close>

fun chunk_ids :: "str list \<Rightarrow> error + token list list" where
  "chunk_ids [] = Inr []"
| "chunk_ids (ch # chs) =
     (case utf8_encode ch of
        Inl e \<Rightarrow> Inl e
      | Inr b \<Rightarrow>
          (case chunk_ids chs of
             Inl e \<Rightarrow> Inl e
           | Inr rest \<Rightarrow> Inr (map int b # rest)))"

definition all_stats :: "token list list \<Rightarrow> (pair \<times> int) list" where
  "all_stats ids = fold get_stats ids []"

definition stats_get :: "(pair \<times> int) list \<Rightarrow> pair \<Rightarrow> int" where
  "stats_get stats p = (case map_of stats p of Some c \<Rightarrow> c | None \<Rightarrow> 0)"

fun train_loop ::
  "nat \<Rightarrow> nat \<Rightarrow> token list list \<Rightarrow> (pair \<times> token) list \<Rightarrow> (token \<times> bytes) list
     \<Rightarrow> error + (pair \<times> token) list \<times> (token \<times> bytes) list" where
  "train_loop 0 i ids mrg voc = Inr (mrg, voc)"
| "train_loop (Suc n) i ids mrg voc =
     (let stats = all_stats ids in
      case py_max (map fst stats) (stats_get stats) of
        Inl e \<Rightarrow> Inl e
      | Inr pr \<Rightarrow>
          (let idx = 256 + int i;
               ids' = map (\<lambda>c. merge c pr idx) ids;
               mrg' = AList.update pr idx mrg
           in case map_of voc (fst pr) of
                None \<Rightarrow> Inl KeyError
              | Some b0 \<Rightarrow>
                  (case map_of voc (snd pr) of
                     None \<Rightarrow> Inl KeyError
                   | Some b1 \<Rightarrow>
                       train_loop n (i + 1) ids' mrg' (AList.update idx (b0 @ b1) voc))))"

definition train :: "tokenizer \<Rightarrow> str \<Rightarrow> int \<Rightarrow> error + tokenizer" where
  "train t txt vocab_size =
     (if \<not> 256 \<le> vocab_size then Inl AssertionError
      else
        (let num_merges = nat (vocab_size - 256);
             text_chunks = compiled_pattern t txt
         in case chunk_ids text_chunks of
              Inl e \<Rightarrow> Inl e
            | Inr ids \<Rightarrow>
                (case train_loop num_merges 0 ids [] byte_vocab of
                   Inl e \<Rightarrow> Inl e
                 | Inr (mrg, voc) \<Rightarrow> Inr (t\<lparr>merges := mrg, vocab := voc\<rparr>))))"

text \<open>
  \<open>register_special_tokens\<close>: two assignments, the given dictionary and its inverse
  \<open>{v: k for k, v in special_tokens.items()}\<close>.
\<close>

definition invert :: "(str \<times> token) list \<Rightarrow> (token \<times> str) list" where
  "invert sp = fold (\<lambda>(k, v) d. AList.update v k d) sp []"

definition register_special_tokens :: "tokenizer \<Rightarrow> (str \<times> token) list \<Rightarrow> tokenizer" where
  "register_special_tokens t sp =
     t\<lparr>special_tokens := sp, inverse_special_tokens := invert sp\<rparr>"

text \<open>
  \<open>decode\<close>: the loop over \<open>ids\<close> collects \<open>part_bytes\<close>. Its second branch appends
  to \<open>party_bytes\<close>, a name that is bound nowhere, so reaching it raises
  \<open>NameError\<close>; the last branch raises \<open>ValueError\<close>.
\<close>

fun decode_parts :: "tokenizer \<Rightarrow> token list \<Rightarrow> error + bytes list" where
  "decode_parts t [] = Inr []"
| "decode_parts t (idx # ids) =
     (case map_of (vocab t) idx of
        Some b \<Rightarrow>
          (case decode_parts t ids of
             Inl e \<Rightarrow> Inl e
           | Inr part_bytes \<Rightarrow> Inr (b # part_bytes))
      | None \<Rightarrow>
          (case map_of (inverse_special_tokens t) idx of
             Some s \<Rightarrow> Inl NameError
           | None \<Rightarrow> Inl ValueError))"

definition decode :: "tokenizer \<Rightarrow> token list \<Rightarrow> error + str" where
  "decode t ids =
     (case decode_parts t ids of
        Inl e \<Rightarrow> Inl e
      | Inr part_bytes \<Rightarrow> Inr (utf8_decode (concat part_bytes)))"

text \<open>
  \<open>_encode_chunk\<close>: the \<open>while len(ids) >= 2\<close> loop. \<open>min\<close> runs over the keys of
  \<open>get_stats(ids)\<close> with key \<open>merges.get(p, inf)\<close>.
\<close>

function encode_chunk_while :: "(pair \<times> token) list \<Rightarrow> token list \<Rightarrow> error + token list" where
  "encode_chunk_while mrg ids =
     (if 2 \<le> length ids then
        (case py_min (map fst (get_stats ids [])) (map_of mrg) of
           Inl e \<Rightarrow> Inl e
         | Inr pr \<Rightarrow>
             (case map_of mrg pr of
                None \<Rightarrow> Inr ids
              | Some idx \<Rightarrow> encode_chunk_while mrg (merge ids pr idx)))
      else Inr ids)"
  by pat_completeness auto
termination
proof (relation "measure (\<lambda>(mrg, ids). length ids)", goal_cases)
  case 1
  show ?case by simp
next
  case (2 mrg ids pr idx)
  from 2(2) have "pr \<in> fst ` set (get_stats ids [])"
    using py_min_in by fastforce
  then have "pr \<in> set (zip ids (drop 1 ids))"
    by (simp add: keys_get_stats)
  then show ?case
    by (simp add: merge_eq_spec merge_spec_shrinks)
qed

definition encode_chunk :: "tokenizer \<Rightarrow> bytes \<Rightarrow> error + token list" where
  "encode_chunk t text_bytes = encode_chunk_while (merges t) (map int text_bytes)"

text \<open>\<open>encode_ordinary\<close>: each chunk of \<open>findall\<close> is encoded on its own.\<close>

fun encode_chunks :: "tokenizer \<Rightarrow> str list \<Rightarrow> error + token list" where
  "encode_chunks t [] = Inr []"
| "encode_chunks t (chunk # chunks) =
     (case utf8_encode chunk of
        Inl e \<Rightarrow> Inl e
      | Inr chunk_bytes \<Rightarrow>
          (case encode_chunk t chunk_bytes of
             Inl e \<Rightarrow> Inl e
           | Inr cids \<Rightarrow>
               (case encode_chunks t chunks of
                  Inl e \<Rightarrow> Inl e
                | Inr ids \<Rightarrow> Inr (cids @ ids))))"

definition encode_ordinary :: "tokenizer \<Rightarrow> str \<Rightarrow> error + token list" where
  "encode_ordinary t txt = encode_chunks t (compiled_pattern t txt)"

text \<open>
  \<open>encode\<close>: the value of \<open>allowed_special\<close> is \<open>"all"\<close>, \<open>"none"\<close>,
  \<open>"none_raise"\<close> (the default), a set of strings, or anything else
  (\<open>Unrecognised\<close>).
\<close>

datatype allowed_special = All | NoSpecial | NoneRaise | Subset "str set" | Unrecognised

definition select_special :: "tokenizer \<Rightarrow> str \<Rightarrow> allowed_special \<Rightarrow> error + (str \<times> token) list" where
  "select_special t txt allowed =
     (case allowed of
        All \<Rightarrow> Inr (special_tokens t)
      | NoSpecial \<Rightarrow> Inr []
      | NoneRaise \<Rightarrow>
          if list_all (\<lambda>token. \<not> contains token txt) (map fst (special_tokens t)) then Inr []
          else Inl AssertionError
      | Subset S \<Rightarrow> Inr (filter (\<lambda>(k, v). k \<in> S) (special_tokens t))
      | Unrecognised \<Rightarrow> Inl ValueError)"

fun encode_parts :: "tokenizer \<Rightarrow> (str \<times> token) list \<Rightarrow> str list \<Rightarrow> error + token list" where
  "encode_parts t special [] = Inr []"
| "encode_parts t special (part # parts) =
     (case map_of special part of
        Some idx \<Rightarrow>
          (case encode_parts t special parts of
             Inl e \<Rightarrow> Inl e
           | Inr ids \<Rightarrow> Inr (idx # ids))
      | None \<Rightarrow>
          (case encode_ordinary t part of
             Inl e \<Rightarrow> Inl e
           | Inr pids \<Rightarrow>
               (case encode_parts t special parts of
                  Inl e \<Rightarrow> Inl e
                | Inr ids \<Rightarrow> Inr (pids @ ids))))"

definition encode :: "tokenizer \<Rightarrow> str \<Rightarrow> allowed_special \<Rightarrow> error + token list" where
  "encode t txt allowed =
     (case select_special t txt allowed of
        Inl e \<Rightarrow> Inl e
      | Inr special \<Rightarrow>
          if special = [] then encode_ordinary t txt
          else encode_parts t special (re_split (map fst special) txt))"

text \<open>The states a tokenizer goes through: constructed, trained, given special tokens.\<close>

inductive reachable :: "tokenizer \<Rightarrow> bool" where
  init: "reachable (RegexTokenizer_init pat findall)"
| trained: "reachable t \<Longrightarrow> train t txt vocab_size = Inr t' \<Longrightarrow> reachable t'"
| registered: "reachable t \<Longrightarrow> reachable (register_special_tokens t sp)"

section \<open>base.py: save\<close>

text \<open>\<open>str(n)\<close> of an integer, as the f-strings of \<open>save\<close> format it.\<close>

function digits :: "nat \<Rightarrow> str" where
  "digits n = (if n < 10 then [48 + n] else digits (n div 10) @ [48 + n mod 10])"
  by pat_completeness auto
termination
  by (relation "measure (\<lambda>n. n)") auto

definition show_int :: "int \<Rightarrow> str" where
  "show_int i = (if i < 0 then 45 # digits (nat (- i)) else digits (nat i))"

text \<open>
  \<open>save\<close> writes \<open>file_prefix + ".model"\<close> and then \<open>file_prefix + ".vocab"\<close>, both
  in text mode: every \<open>f.write(s)\<close> encodes \<open>s\<close> with the encoding of the file and
  raises when \<open>s\<close> does not encode, and the file then keeps what was written before.
  The model file is opened without an encoding, so it has the encoding of the platform
  (the parameter \<open>enc\<close>); the vocabulary file is opened with \<open>encoding="utf-8"\<close>. The
  result is the files as they are left (name and bytes) and how the call ends.
\<close>

definition model_writes :: "tokenizer \<Rightarrow> str list" where
  "model_writes t =
     [str_of ''bpe v1'' @ [10],
      pattern t @ [10],
      show_int (int (length (special_tokens t))) @ [10]]
     @ map (\<lambda>(special, idx). special @ [32] @ show_int idx @ [10]) (special_tokens t)
     @ map (\<lambda>(idx1, idx2). show_int idx1 @ [32] @ show_int idx2 @ [10]) (map fst (merges t))"

fun write_all :: "(str \<Rightarrow> error + bytes) \<Rightarrow> str list \<Rightarrow> bytes \<Rightarrow> bytes \<times> (error + unit)" where
  "write_all enc [] out = (out, Inr ())"
| "write_all enc (w # ws) out =
     (case enc w of
        Inl e \<Rightarrow> (out, Inl e)
      | Inr b \<Rightarrow> write_all enc ws (out @ b))"

text \<open>
  The vocabulary loop. The branch for a token without children calls \<open>f.wirte\<close>, which
  a file object does not have: \<open>AttributeError\<close>. \<open>render_token\<close> escapes control
  characters by \<open>unicodedata.category\<close>, a table of the Python runtime, and is a
  parameter (\<open>render\<close>).
\<close>

definition inverted_merges :: "tokenizer \<Rightarrow> (token \<times> pair) list" where
  "inverted_merges t = fold (\<lambda>(pr, idx) d. AList.update idx pr d) (merges t) []"

fun vocab_lines ::
  "(bytes \<Rightarrow> str) \<Rightarrow> tokenizer \<Rightarrow> (token \<times> bytes) list \<Rightarrow> bytes \<Rightarrow> bytes \<times> (error + unit)" where
  "vocab_lines render t [] out = (out, Inr ())"
| "vocab_lines render t ((idx, token) # items) out =
     (let s = render token in
      case map_of (inverted_merges t) idx of
        Some (idx0, idx1) \<Rightarrow>
          (case map_of (vocab t) idx0 of
             None \<Rightarrow> (out, Inl KeyError)
           | Some t0 \<Rightarrow>
               (case map_of (vocab t) idx1 of
                  None \<Rightarrow> (out, Inl KeyError)
                | Some t1 \<Rightarrow>
                    (case utf8_encode
                            ([91] @ render t0 @ [93, 91] @ render t1 @ [93]
                               @ str_of '' -> '' @ [91] @ s @ [93, 32] @ show_int idx @ [10]) of
                       Inl e \<Rightarrow> (out, Inl e)
                     | Inr b \<Rightarrow> vocab_lines render t items (out @ b))))
      | None \<Rightarrow> (out, Inl AttributeError))"

definition save ::
  "(str \<Rightarrow> error + bytes) \<Rightarrow> (bytes \<Rightarrow> str) \<Rightarrow> tokenizer \<Rightarrow> str
     \<Rightarrow> (str \<times> bytes) list \<times> (error + unit)" where
  "save enc render t file_prefix =
     (let model_file = file_prefix @ str_of ''.model'';
          vocab_file = file_prefix @ str_of ''.vocab'';
          (model, written) = write_all enc (model_writes t) []
      in case written of
           Inl e \<Rightarrow> ([(model_file, model)], Inl e)
         | Inr u \<Rightarrow>
             (let (dump, outcome) = vocab_lines render t (vocab t) []
              in ([(model_file, model), (vocab_file, dump)], outcome)))"

section \<open>Notions of the proofs and the examples of the specification\<close>

text \<open>The pairs \<open>zip(ids, ids[1:])\<close> of a sequence, as a set.\<close>

fun adj :: "token list \<Rightarrow> pair set" where
  "adj (x # y # rest) = insert (x, y) (adj (y # rest))"
| "adj ids = {}"

text \<open>
  What holds at the start of round \<open>i\<close> of the training loop: the vocabulary has the
  ids \<open>0 .. 255 + i\<close> in order, the merge table has \<open>i\<close> distinct pairs with the
  ids \<open>256 .. 255 + i\<close> in order, every id of a chunk is in the vocabulary, no pair
  of the table is left in any chunk, and every table entry \<open>(a, b) -> idx\<close> has
  \<open>vocab[idx] = vocab[a] + vocab[b]\<close> (\<open>vocab_ok\<close>).
\<close>

definition vocab_ok :: "(pair \<times> token) list \<Rightarrow> (token \<times> bytes) list \<Rightarrow> bool" where
  "vocab_ok mrg voc \<longleftrightarrow>
     (\<forall>i<256. map_of voc (int i) = Some [i])
     \<and> (\<forall>a b idx. map_of mrg (a, b) = Some idx \<longrightarrow>
          (\<exists>ba bb. map_of voc a = Some ba \<and> map_of voc b = Some bb
             \<and> map_of voc idx = Some (ba @ bb)))"

definition train_inv ::
  "nat \<Rightarrow> token list list \<Rightarrow> (pair \<times> token) list \<Rightarrow> (token \<times> bytes) list \<Rightarrow> bool" where
  "train_inv i ids mrg voc \<longleftrightarrow>
     map fst voc = map int [0..<256 + i]
     \<and> map snd mrg = map (\<lambda>j. 256 + int j) [0..<i]
     \<and> distinct (map fst mrg)
     \<and> (\<forall>c \<in> set ids. \<forall>x \<in> set c. 0 \<le> x \<and> x < 256 + int i)
     \<and> (\<forall>p \<in> fst ` set mrg. fst p < 256 + int i \<and> snd p < 256 + int i
           \<and> (\<forall>c \<in> set ids. p \<notin> adj c))
     \<and> vocab_ok mrg voc"

definition tok_inv :: "tokenizer \<Rightarrow> bool" where
  "tok_inv t \<longleftrightarrow>
     (\<exists>k. map fst (vocab t) = map int [0..<256 + k]
        \<and> map snd (merges t) = map (\<lambda>j. 256 + int j) [0..<k])
     \<and> distinct (map fst (merges t))
     \<and> vocab_ok (merges t) (vocab t)"

text \<open>
  Every one of the next \<open>n\<close> rounds, from round \<open>i\<close> on, finds an adjacent pair
  in some chunk: the rounds of \<open>train_loop\<close> without the tables.
\<close>

fun rounds_have_pairs :: "nat \<Rightarrow> nat \<Rightarrow> token list list \<Rightarrow> bool" where
  "rounds_have_pairs 0 i ids = True"
| "rounds_have_pairs (Suc n) i ids =
     (let stats = all_stats ids in
      case py_max (map fst stats) (stats_get stats) of
        Inl e \<Rightarrow> False
      | Inr pr \<Rightarrow> rounds_have_pairs n (i + 1) (map (\<lambda>c. merge c pr (256 + int i)) ids))"

text \<open>
  The bytes an id sequence stands for under a vocabulary (\<open>expand\<close>), for
  sequences whose ids are all in the vocabulary (\<open>known\<close>).
\<close>

definition bytes_of :: "(token \<times> bytes) list \<Rightarrow> token \<Rightarrow> bytes" where
  "bytes_of voc i = (case map_of voc i of Some b \<Rightarrow> b | None \<Rightarrow> [])"

definition expand :: "(token \<times> bytes) list \<Rightarrow> token list \<Rightarrow> bytes" where
  "expand voc ids = concat (map (bytes_of voc) ids)"

definition known :: "(token \<times> bytes) list \<Rightarrow> token list \<Rightarrow> bool" where
  "known voc ids = list_all (\<lambda>i. map_of voc i \<noteq> None) ids"

text \<open>The merge table \<open>[(1,2) -> 256, (256,3) -> 257]\<close>.\<close>

definition example_merges :: "(pair \<times> token) list" where
  "example_merges = [((1, 2), 256), ((256, 3), 257)]"

text \<open>The special token \<open>"<END>"\<close> with id 100256.\<close>

definition END :: str where
  "END = str_of ''<END>''"

definition end_token :: "(str \<times> token) list" where
  "end_token = [(END, 100256)]"

text \<open>
  Two compiled patterns for concrete runs: \<open>findall\<close> of \<open>(?s).+\<close>, which returns
  the whole text as one chunk (and nothing for the empty text), and \<open>findall\<close> of a
  one-character literal, which returns each occurrence of that character.
\<close>

definition findall_whole :: "str \<Rightarrow> str list" where
  "findall_whole s = (if s = [] then [] else [s])"

definition findall_char :: "nat \<Rightarrow> str \<Rightarrow> str list" where
  "findall_char c s = map (\<lambda>x. [x]) (filter (\<lambda>x. x = c) s)"

definition plain_tokenizer :: tokenizer where
  "plain_tokenizer = RegexTokenizer_init (str_of ''(?s).+'') findall_whole"

text \<open>Training one merge on \<open>"aaab"\<close>.\<close>

definition trained_example :: "error + tokenizer" where
  "trained_example = train plain_tokenizer (str_of ''aaab'') 257"

text \<open>A tokenizer whose pattern is the single letter \<open>a\<close>.\<close>

definition letter_a_tokenizer :: tokenizer where
  "letter_a_tokenizer = RegexTokenizer_init (str_of ''a'') (findall_char 97)"






text \<open>Special tokens for concrete runs.\<close>

definition pad_token :: "(str \<times> token) list" where
  "pad_token = [(str_of ''<PAD>'', 100257)]"

definition surrogate_token :: "(str \<times> token) list" where
  "surrogate_token = [([0xD800], 5)]"



section \<open>The encoding loop\<close>

declare encode_chunk_while.simps [simp del]

lemma key_le_trans: "\<not> key_lt b a \<Longrightarrow> \<not> key_lt c b \<Longrightarrow> \<not> key_lt c a"
  by (cases a; cases b; cases c) auto

lemma min_by_least: "x \<in> insert best (set xs) \<Longrightarrow> \<not> key_lt (key x) (key (min_by key best xs))"
proof (induction xs arbitrary: best x)
  case Nil
  then show ?case by (cases "key best") auto
next
  case (Cons y ys)
  let ?b = "if key_lt (key y) (key best) then y else best"
  have m: "\<not> key_lt (key ?b) (key (min_by key ?b ys))" using Cons.IH[of ?b ?b] by simp
  have b1: "\<not> key_lt (key best) (key ?b)" by (cases "key best"; cases "key y") auto
  have b2: "\<not> key_lt (key y) (key ?b)" by (cases "key best"; cases "key y") auto
  consider "x = best" | "x = y" | "x \<in> set ys" using Cons.prems by auto
  then show ?case
  proof cases
    case 1 then show ?thesis using key_le_trans[OF m b1] by simp
  next
    case 2 then show ?thesis using key_le_trans[OF m b2] by simp
  next
    case 3 then show ?thesis using Cons.IH[of x ?b] by simp
  qed
qed

lemma py_min_least:
  "py_min xs key = Inr p \<Longrightarrow> q \<in> set xs \<Longrightarrow> \<not> key_lt (key q) (key p)"
  using min_by_least[of q _ _ key] by (auto simp add: py_min_def split: list.splits)

lemma zip_drop1_nonempty: "2 \<le> length ids \<Longrightarrow> zip ids (drop 1 ids) \<noteq> []"
  by (cases ids; cases "tl ids") auto

lemma get_stats_nonempty: "2 \<le> length ids \<Longrightarrow> get_stats ids [] \<noteq> []"
proof
  assume a: "2 \<le> length ids" and "get_stats ids [] = []"
  then have "fst ` set (get_stats ids []) = {}" by simp
  then have "set (zip ids (drop 1 ids)) = {}" by (simp add: keys_get_stats)
  with zip_drop1_nonempty[OF a] show False by simp
qed

lemma py_min_stats:
  assumes "2 \<le> length ids"
  obtains p where "py_min (map fst (get_stats ids [])) key = Inr p"
    "p \<in> set (zip ids (drop 1 ids))"
    "\<And>q. q \<in> set (zip ids (drop 1 ids)) \<Longrightarrow> \<not> key_lt (key q) (key p)"
proof -
  from get_stats_nonempty[OF assms] obtain p
    where p: "py_min (map fst (get_stats ids [])) key = Inr p"
    by (cases "get_stats ids []") (auto simp add: py_min_def)
  have ks: "set (map fst (get_stats ids [])) = set (zip ids (drop 1 ids))"
    using keys_get_stats[of ids "[]"] by simp
  from py_min_in[OF p] ks have "p \<in> set (zip ids (drop 1 ids))" by simp
  moreover have "\<And>q. q \<in> set (zip ids (drop 1 ids)) \<Longrightarrow> \<not> key_lt (key q) (key p)"
    using py_min_least[OF p] ks by simp
  ultimately show thesis using p that by blast
qed

lemma encode_chunk_while_short: "\<not> 2 \<le> length ids \<Longrightarrow> encode_chunk_while mrg ids = Inr ids"
  by (subst encode_chunk_while.simps) simp

lemma encode_chunk_while_step:
  assumes "2 \<le> length ids"
  shows "(\<forall>q \<in> set (zip ids (drop 1 ids)). map_of mrg q = None)
           \<longrightarrow> encode_chunk_while mrg ids = Inr ids"
    and "(\<exists>q \<in> set (zip ids (drop 1 ids)). map_of mrg q \<noteq> None)
           \<longrightarrow> (\<exists>p idx. p \<in> set (zip ids (drop 1 ids)) \<and> map_of mrg p = Some idx
                 \<and> (\<forall>q j. q \<in> set (zip ids (drop 1 ids)) \<and> map_of mrg q = Some j \<longrightarrow> idx \<le> j)
                 \<and> encode_chunk_while mrg ids = encode_chunk_while mrg (merge ids p idx))"
proof -
  obtain p where p: "py_min (map fst (get_stats ids [])) (map_of mrg) = Inr p"
    and pin: "p \<in> set (zip ids (drop 1 ids))"
    and least: "\<And>q. q \<in> set (zip ids (drop 1 ids)) \<Longrightarrow> \<not> key_lt (map_of mrg q) (map_of mrg p)"
    using py_min_stats[OF assms] by blast
  show "(\<forall>q \<in> set (zip ids (drop 1 ids)). map_of mrg q = None)
           \<longrightarrow> encode_chunk_while mrg ids = Inr ids"
    using p pin assms by (subst encode_chunk_while.simps) auto
  show "(\<exists>q \<in> set (zip ids (drop 1 ids)). map_of mrg q \<noteq> None)
           \<longrightarrow> (\<exists>p idx. p \<in> set (zip ids (drop 1 ids)) \<and> map_of mrg p = Some idx
                 \<and> (\<forall>q j. q \<in> set (zip ids (drop 1 ids)) \<and> map_of mrg q = Some j \<longrightarrow> idx \<le> j)
                 \<and> encode_chunk_while mrg ids = encode_chunk_while mrg (merge ids p idx))"
  proof
    assume "\<exists>q \<in> set (zip ids (drop 1 ids)). map_of mrg q \<noteq> None"
    then obtain q j where q: "q \<in> set (zip ids (drop 1 ids))" "map_of mrg q = Some j" by auto
    from least[OF q(1)] q(2) obtain idx where idx: "map_of mrg p = Some idx"
      by (cases "map_of mrg p") auto
    have min: "\<forall>q j. q \<in> set (zip ids (drop 1 ids)) \<and> map_of mrg q = Some j \<longrightarrow> idx \<le> j"
    proof (intro allI impI)
      fix q' j' assume "q' \<in> set (zip ids (drop 1 ids)) \<and> map_of mrg q' = Some j'"
      with least[of q'] idx show "idx \<le> j'" by auto
    qed
    have "encode_chunk_while mrg ids = encode_chunk_while mrg (merge ids p idx)"
      using p idx assms by (subst encode_chunk_while.simps) simp
    with pin idx min show "\<exists>p idx. p \<in> set (zip ids (drop 1 ids)) \<and> map_of mrg p = Some idx
                 \<and> (\<forall>q j. q \<in> set (zip ids (drop 1 ids)) \<and> map_of mrg q = Some j \<longrightarrow> idx \<le> j)
                 \<and> encode_chunk_while mrg ids = encode_chunk_while mrg (merge ids p idx)"
      by blast
  qed
qed

lemma encode_chunk_while_example: "encode_chunk_while [((1, 2), 256), ((256, 3), 257)] [1, 2, 3] = Inr [257]"
  apply (subst encode_chunk_while.simps)
  apply (simp add: get_stats_def bump_def py_min_def merge_eq_spec)
  apply (subst encode_chunk_while.simps)
  apply (simp add: get_stats_def bump_def py_min_def merge_eq_spec)
  apply (subst encode_chunk_while.simps)
  apply simp
  done

section \<open>Adjacent pairs and the merge\<close>

lemma set_zip_adj: "set (zip ids (drop 1 ids)) = adj ids"
  by (induction ids rule: adj.induct) auto

lemma set_zip_adj': "set (zip ids (drop (Suc 0) ids)) = adj ids"
  using set_zip_adj[of ids] by simp

lemma merge_spec_Cons:
  "\<exists>h t. merge_spec (y # rest) pr idx = h # t \<and> (h = y \<or> h = idx)"
  by (cases rest) auto

lemma adj_Cons: "adj (x # h # t) = insert (x, h) (adj (h # t))"
  by simp

lemma merge_spec_no_pair:
  "idx \<noteq> fst pr \<Longrightarrow> idx \<noteq> snd pr \<Longrightarrow> pr \<notin> adj (merge_spec ids pr idx)"
proof (induction ids pr idx rule: merge_spec.induct)
  case (1 x y rest pr idx)
  show ?case
  proof (cases "x = fst pr \<and> y = snd pr")
    case True
    show ?thesis
    proof (cases rest)
      case Nil
      with True show ?thesis by simp
    next
      case (Cons z zs)
      obtain h t where ht: "merge_spec (z # zs) pr idx = h # t"
        using merge_spec_Cons by blast
      from "1.IH"(1)[OF True "1.prems"] Cons ht have "pr \<notin> adj (h # t)" by simp
      with True Cons ht "1.prems" show ?thesis by (cases pr) auto
    qed
  next
    case False
    obtain h t where ht: "merge_spec (y # rest) pr idx = h # t" "h = y \<or> h = idx"
      using merge_spec_Cons by blast
    from "1.IH"(2)[OF False "1.prems"] ht have "pr \<notin> adj (h # t)" by simp
    with False ht "1.prems" show ?thesis by (cases pr) auto
  qed
qed simp_all

lemma merge_spec_adj_subset:
  "adj (merge_spec ids pr idx) \<subseteq> adj ids \<union> {q. fst q = idx \<or> snd q = idx}"
proof (induction ids pr idx rule: merge_spec.induct)
  case (1 x y rest pr idx)
  show ?case
  proof (cases "x = fst pr \<and> y = snd pr")
    case True
    show ?thesis
    proof (cases rest)
      case Nil
      with True show ?thesis by simp
    next
      case (Cons z zs)
      obtain h t where ht: "merge_spec (z # zs) pr idx = h # t"
        using merge_spec_Cons by blast
      from "1.IH"(1)[OF True] Cons ht
      have "adj (h # t) \<subseteq> adj (z # zs) \<union> {q. fst q = idx \<or> snd q = idx}" by simp
      with True Cons ht show ?thesis by auto
    qed
  next
    case False
    obtain h t where ht: "merge_spec (y # rest) pr idx = h # t" "h = y \<or> h = idx"
      using merge_spec_Cons by blast
    from "1.IH"(2)[OF False] ht
    have "adj (h # t) \<subseteq> adj (y # rest) \<union> {q. fst q = idx \<or> snd q = idx}" by simp
    with False ht show ?thesis by auto
  qed
qed simp_all

lemma set_merge_spec: "set (merge_spec ids pr idx) \<subseteq> insert idx (set ids)"
  by (induction ids pr idx rule: merge_spec.induct) auto

lemma adj_elems: "(a, b) \<in> adj ids \<Longrightarrow> a \<in> set ids \<and> b \<in> set ids"
  by (induction ids rule: adj.induct) auto

lemma keys_all_stats_aux:
  "fst ` set (fold get_stats ids counts) = fst ` set counts \<union> (\<Union>c \<in> set ids. adj c)"
  by (induction ids arbitrary: counts) (auto simp add: keys_get_stats set_zip_adj')

lemma keys_all_stats: "set (map fst (all_stats ids)) = (\<Union>c \<in> set ids. adj c)"
  using keys_all_stats_aux[of ids "[]"] by (simp add: all_stats_def)

lemma update_fresh: "k \<notin> fst ` set al \<Longrightarrow> AList.update k v al = al @ [(k, v)]"
  by (induction al) auto

section \<open>The training loop\<close>

lemma keys_range:
  assumes "map fst voc = map int [0..<n]"
  shows "k \<in> fst ` set voc \<longleftrightarrow> 0 \<le> k \<and> k < int n"
proof -
  have "fst ` set voc = set (map fst voc)" by simp
  also have "\<dots> = int ` {0..<n}" using assms by simp
  finally show ?thesis by (auto simp add: image_iff intro: bexI[of _ "nat k"])
qed

lemma map_of_in_keys: "k \<in> fst ` set al \<Longrightarrow> \<exists>v. map_of al k = Some v"
  by (cases "map_of al k") (auto simp add: map_of_eq_None_iff)

lemma train_step:
  assumes inv: "train_inv i ids mrg voc"
    and pm: "py_max (map fst (all_stats ids)) key = Inr pr"
  shows "\<exists>b0 b1. map_of voc (fst pr) = Some b0 \<and> map_of voc (snd pr) = Some b1
           \<and> train_inv (Suc i) (map (\<lambda>c. merge c pr (256 + int i)) ids)
                (AList.update pr (256 + int i) mrg)
                (AList.update (256 + int i) (b0 @ b1) voc)"
proof -
  let ?idx = "256 + int i"
  from inv have kv: "map fst voc = map int [0..<256 + i]"
    and sm: "map snd mrg = map (\<lambda>j. 256 + int j) [0..<i]"
    and dm: "distinct (map fst mrg)"
    and el: "\<forall>c \<in> set ids. \<forall>x \<in> set c. 0 \<le> x \<and> x < ?idx"
    and km: "\<forall>p \<in> fst ` set mrg. fst p < ?idx \<and> snd p < ?idx \<and> (\<forall>c \<in> set ids. p \<notin> adj c)"
    and ok: "vocab_ok mrg voc"
    by (simp_all add: train_inv_def)
  from py_max_in[OF pm] have "pr \<in> (\<Union>c \<in> set ids. adj c)"
    unfolding keys_all_stats .
  then obtain c where c: "c \<in> set ids" "pr \<in> adj c" by blast
  obtain a b where pr: "pr = (a, b)" by (cases pr)
  from c pr adj_elems[of a b c] el have ab: "0 \<le> a" "a < ?idx" "0 \<le> b" "b < ?idx" by auto
  have inkeys: "\<And>k. k \<in> fst ` set voc \<longleftrightarrow> 0 \<le> k \<and> k < ?idx"
    using keys_range[OF kv] by simp
  from ab inkeys obtain b0 b1 where b0: "map_of voc a = Some b0" and b1: "map_of voc b = Some b1"
    using map_of_in_keys[of a voc] map_of_in_keys[of b voc] by auto
  have fresh_pr: "pr \<notin> fst ` set mrg" using km c by blast
  have fresh_idx: "?idx \<notin> fst ` set voc" using inkeys by simp
  have mrg': "AList.update pr ?idx mrg = mrg @ [(pr, ?idx)]"
    using fresh_pr by (rule update_fresh)
  have voc': "AList.update ?idx (b0 @ b1) voc = voc @ [(?idx, b0 @ b1)]"
    using fresh_idx by (rule update_fresh)
  have u: "[0..<256 + Suc i] = [0..<256 + i] @ [256 + i]"
    using upt_Suc_append[of 0 "256 + i"] by (simp only: add_Suc_right le0)
  have i1: "map fst (voc @ [(?idx, b0 @ b1)]) = map int [0..<256 + Suc i]"
    unfolding u using kv by simp
  have i2: "map snd (mrg @ [(pr, ?idx)]) = map (\<lambda>j. 256 + int j) [0..<Suc i]"
    using sm by simp
  have i3: "distinct (map fst (mrg @ [(pr, ?idx)]))"
    using dm fresh_pr by simp
  have i4: "\<forall>c \<in> set (map (\<lambda>c. merge c pr ?idx) ids). \<forall>x \<in> set c. 0 \<le> x \<and> x < 256 + int (Suc i)"
  proof (intro ballI)
    fix c' x assume "c' \<in> set (map (\<lambda>c. merge c pr ?idx) ids)" "x \<in> set c'"
    then obtain c0 where c0: "c0 \<in> set ids" "x \<in> set (merge_spec c0 pr ?idx)"
      by (auto simp add: merge_eq_spec)
    with set_merge_spec[of c0 pr ?idx] have "x = ?idx \<or> x \<in> set c0" by auto
    with el c0 show "0 \<le> x \<and> x < 256 + int (Suc i)" by force
  qed
  have i5: "\<forall>p \<in> fst ` set (mrg @ [(pr, ?idx)]). fst p < 256 + int (Suc i) \<and> snd p < 256 + int (Suc i)
           \<and> (\<forall>c \<in> set (map (\<lambda>c. merge c pr ?idx) ids). p \<notin> adj c)"
  proof (intro ballI conjI)
    fix p assume p: "p \<in> fst ` set (mrg @ [(pr, ?idx)])"
    then have cases: "p = pr \<or> p \<in> fst ` set mrg" by auto
    then have lt: "fst p < ?idx \<and> snd p < ?idx" using km ab pr by auto
    then show "fst p < 256 + int (Suc i)" "snd p < 256 + int (Suc i)" by simp_all
    fix c' assume "c' \<in> set (map (\<lambda>c. merge c pr ?idx) ids)"
    then obtain c0 where c0: "c0 \<in> set ids" "c' = merge_spec c0 pr ?idx"
      by (auto simp add: merge_eq_spec)
    show "p \<notin> adj c'"
    proof (cases "p = pr")
      case True
      then show ?thesis using merge_spec_no_pair[of ?idx pr c0] ab pr c0 by simp
    next
      case False
      with cases km c0 have "p \<notin> adj c0" by blast
      moreover from lt have "p \<notin> {q. fst q = ?idx \<or> snd q = ?idx}" by auto
      ultimately show ?thesis using merge_spec_adj_subset[of c0 pr ?idx] c0 by blast
    qed
  qed
  have mo: "map_of (voc @ [(?idx, b0 @ b1)]) = (map_of voc)(?idx \<mapsto> b0 @ b1)"
    using voc'[symmetric] by (simp add: update_conv')
  have mm: "map_of (mrg @ [(pr, ?idx)]) = (map_of mrg)(pr \<mapsto> ?idx)"
    using mrg'[symmetric] by (simp add: update_conv')
  have none_idx: "map_of voc ?idx = None"
    using fresh_idx by (simp add: map_of_eq_None_iff)
  have i6: "vocab_ok (mrg @ [(pr, ?idx)]) (voc @ [(?idx, b0 @ b1)])"
    unfolding vocab_ok_def mo mm
  proof (intro conjI allI impI)
    fix j :: nat assume "j < 256"
    with ok have "map_of voc (int j) = Some [j]" by (simp add: vocab_ok_def)
    with none_idx show "((map_of voc)(?idx \<mapsto> b0 @ b1)) (int j) = Some [j]"
      by auto
  next
    fix x y k assume h: "((map_of mrg)(pr \<mapsto> ?idx)) (x, y) = Some k"
    show "\<exists>ba bb. ((map_of voc)(?idx \<mapsto> b0 @ b1)) x = Some ba
            \<and> ((map_of voc)(?idx \<mapsto> b0 @ b1)) y = Some bb
            \<and> ((map_of voc)(?idx \<mapsto> b0 @ b1)) k = Some (ba @ bb)"
    proof (cases "(x, y) = pr")
      case True
      with h have "k = ?idx" by simp
      with True pr b0 b1 none_idx show ?thesis by auto
    next
      case False
      with h have "map_of mrg (x, y) = Some k" by simp
      with ok obtain ba bb where "map_of voc x = Some ba" "map_of voc y = Some bb"
        "map_of voc k = Some (ba @ bb)" unfolding vocab_ok_def by blast
      with none_idx show ?thesis by auto
    qed
  qed
  have "train_inv (Suc i) (map (\<lambda>c. merge c pr ?idx) ids)
          (mrg @ [(pr, ?idx)]) (voc @ [(?idx, b0 @ b1)])"
    unfolding train_inv_def using i1 i2 i3 i4 i5 i6 by blast
  with b0 b1 pr mrg' voc' show ?thesis by auto
qed

lemma py_max_error: "py_max xs key = Inl e \<Longrightarrow> e = ValueError"
  by (auto simp add: py_max_def split: list.splits)

lemma train_loop_inv:
  "train_inv i ids mrg voc \<Longrightarrow> train_loop n i ids mrg voc = Inr (m', v') \<Longrightarrow>
   \<exists>ids'. train_inv (i + n) ids' m' v'"
proof (induction n arbitrary: i ids mrg voc)
  case 0
  then show ?case by auto
next
  case (Suc n)
  let ?stats = "all_stats ids"
  from Suc.prems(2) obtain pr where pm: "py_max (map fst ?stats) (stats_get ?stats) = Inr pr"
    by (cases "py_max (map fst ?stats) (stats_get ?stats)") (auto simp add: Let_def)
  from train_step[OF Suc.prems(1) pm] obtain b0 b1 where
    b: "map_of voc (fst pr) = Some b0" "map_of voc (snd pr) = Some b1"
    and inv': "train_inv (Suc i) (map (\<lambda>c. merge c pr (256 + int i)) ids)
                (AList.update pr (256 + int i) mrg)
                (AList.update (256 + int i) (b0 @ b1) voc)"
    by blast
  from Suc.prems(2) pm b have
    "train_loop n (Suc i) (map (\<lambda>c. merge c pr (256 + int i)) ids)
       (AList.update pr (256 + int i) mrg) (AList.update (256 + int i) (b0 @ b1) voc) = Inr (m', v')"
    by (simp add: Let_def)
  from Suc.IH[OF inv' this] show ?case by simp
qed

lemma train_loop_error:
  "train_inv i ids mrg voc \<Longrightarrow> train_loop n i ids mrg voc = Inl e \<Longrightarrow> e = ValueError"
proof (induction n arbitrary: i ids mrg voc)
  case 0
  then show ?case by simp
next
  case (Suc n)
  let ?stats = "all_stats ids"
  show ?case
  proof (cases "py_max (map fst ?stats) (stats_get ?stats)")
    case (Inl e')
    with Suc.prems(2) have "e = e'" by (simp add: Let_def)
    with Inl show ?thesis by (simp add: py_max_error)
  next
    case (Inr pr)
    from train_step[OF Suc.prems(1) Inr] obtain b0 b1 where
      b: "map_of voc (fst pr) = Some b0" "map_of voc (snd pr) = Some b1"
      and inv': "train_inv (Suc i) (map (\<lambda>c. merge c pr (256 + int i)) ids)
                  (AList.update pr (256 + int i) mrg)
                  (AList.update (256 + int i) (b0 @ b1) voc)"
      by blast
    from Suc.prems(2) Inr b have
      "train_loop n (Suc i) (map (\<lambda>c. merge c pr (256 + int i)) ids)
         (AList.update pr (256 + int i) mrg) (AList.update (256 + int i) (b0 @ b1) voc) = Inl e"
      by (simp add: Let_def)
    from Suc.IH[OF inv' this] show ?thesis .
  qed
qed

lemma utf8_char_bytes: "encodable c \<Longrightarrow> \<forall>b \<in> set (utf8_char c). b < 256"
proof -
  assume e: "encodable c"
  then have c: "c < 0x110000" by (simp add: encodable_def)
  have m: "\<And>x::nat. x mod 64 < 64" by simp
  have d1: "c < 0x800 \<Longrightarrow> c div 64 < 32" by (simp add: less_mult_imp_div_less)
  have d2: "c < 0x10000 \<Longrightarrow> c div 4096 < 16" by (simp add: less_mult_imp_div_less)
  have d3: "c div 262144 < 5" using c by (simp add: less_mult_imp_div_less)
  show ?thesis
    using m[of c] m[of "c div 64"] m[of "c div 4096"] d1 d2 d3
    by (auto simp add: utf8_char_def)
qed

lemma utf8_encode_bytes: "utf8_encode s = Inr b \<Longrightarrow> \<forall>x \<in> set b. x < 256"
  using utf8_char_bytes
  by (fastforce simp add: utf8_encode_def list_all_iff split: if_splits)

lemma chunk_ids_bytes:
  "chunk_ids chs = Inr ids \<Longrightarrow> \<forall>c \<in> set ids. \<forall>x \<in> set c. 0 \<le> x \<and> x < 256"
proof (induction chs arbitrary: ids)
  case Nil
  then show ?case by simp
next
  case (Cons ch chs)
  from Cons.prems obtain b rest where b: "utf8_encode ch = Inr b"
    and r: "chunk_ids chs = Inr rest" and ids: "ids = map int b # rest"
    by (auto split: sum.splits)
  from utf8_encode_bytes[OF b] have "\<forall>x \<in> set (map int b). 0 \<le> x \<and> x < 256" by auto
  with Cons.IH[OF r] ids show ?case by auto
qed

lemma map_of_byte_vocab: "i < 256 \<Longrightarrow> map_of byte_vocab (int i) = Some [i]"
proof -
  have "\<And>xs. i \<in> set xs \<Longrightarrow> map_of (map (\<lambda>i. (int i, [i])) xs) (int i) = Some [i]"
  proof -
    fix xs show "i \<in> set xs \<Longrightarrow> map_of (map (\<lambda>i. (int i, [i])) xs) (int i) = Some [i]"
      by (induction xs) auto
  qed
  then show "i < 256 \<Longrightarrow> map_of byte_vocab (int i) = Some [i]"
    by (simp add: byte_vocab_def)
qed

lemma train_inv_init:
  "\<forall>c \<in> set ids. \<forall>x \<in> set c. 0 \<le> x \<and> x < 256 \<Longrightarrow> train_inv 0 ids [] byte_vocab"
proof -
  assume a: "\<forall>c \<in> set ids. \<forall>x \<in> set c. 0 \<le> x \<and> x < 256"
  have k: "map fst byte_vocab = map int [0..<256 + 0]"
    by (simp add: byte_vocab_def comp_def)
  have ok: "vocab_ok [] byte_vocab"
    by (simp add: vocab_ok_def map_of_byte_vocab)
  from a k ok show ?thesis unfolding train_inv_def by simp
qed

lemma train_tok_inv: "train t txt vocab_size = Inr t' \<Longrightarrow> tok_inv t'"
proof -
  assume tr: "train t txt vocab_size = Inr t'"
  then obtain ids m' v' where ids: "chunk_ids (compiled_pattern t txt) = Inr ids"
    and tl: "train_loop (nat (vocab_size - 256)) 0 ids [] byte_vocab = Inr (m', v')"
    and t': "t' = t\<lparr>merges := m', vocab := v'\<rparr>"
    by (auto simp add: train_def Let_def split: if_splits sum.splits)
  from train_loop_inv[OF train_inv_init[OF chunk_ids_bytes[OF ids]] tl]
  obtain ids' where "train_inv (0 + nat (vocab_size - 256)) ids' m' v'" by blast
  then show "tok_inv t'" unfolding tok_inv_def train_inv_def t' by auto
qed

lemma reachable_tok_inv: "reachable t \<Longrightarrow> tok_inv t"
proof (induction rule: reachable.induct)
  case (init pat findall)
  have "train_inv 0 [] [] byte_vocab" by (rule train_inv_init) simp
  then show ?case
    unfolding tok_inv_def train_inv_def RegexTokenizer_init_def
    by (auto intro: exI[of _ 0])
next
  case (trained t s vocab_size t')
  then show ?case by (simp add: train_tok_inv)
next
  case (registered t sp)
  then show ?case by (simp add: tok_inv_def register_special_tokens_def)
qed

lemma tok_inv_length: "tok_inv t \<Longrightarrow> length (vocab t) = 256 + length (merges t)"
proof -
  assume "tok_inv t"
  then obtain k where k: "map fst (vocab t) = map int [0..<256 + k]"
    "map snd (merges t) = map (\<lambda>j. 256 + int j) [0..<k]"
    unfolding tok_inv_def by blast
  from k(1) have "length (vocab t) = 256 + k"
    by (metis length_map length_upt diff_zero)
  moreover from k(2) have "length (merges t) = k"
    by (metis length_map length_upt diff_zero)
  ultimately show ?thesis by simp
qed

lemma adj_empty_iff: "adj c = {} \<longleftrightarrow> length c < 2"
  by (induction c rule: adj.induct) auto

lemma py_max_Inl_iff: "(\<exists>e. py_max xs key = Inl e) \<longleftrightarrow> xs = []"
  by (auto simp add: py_max_def split: list.splits)

lemma no_pairs_iff:
  "(\<exists>e. py_max (map fst (all_stats ids)) key = Inl e) \<longleftrightarrow> (\<forall>c \<in> set ids. length c < 2)"
proof -
  have "map fst (all_stats ids) = [] \<longleftrightarrow> set (map fst (all_stats ids)) = {}" by simp
  also have "\<dots> \<longleftrightarrow> (\<forall>c \<in> set ids. adj c = {})" unfolding keys_all_stats by auto
  finally show ?thesis by (simp add: py_max_Inl_iff adj_empty_iff)
qed

lemma train_loop_ok_iff:
  "train_inv i ids mrg voc \<Longrightarrow>
   (\<exists>r. train_loop n i ids mrg voc = Inr r) \<longleftrightarrow> rounds_have_pairs n i ids"
proof (induction n arbitrary: i ids mrg voc)
  case 0
  then show ?case by simp
next
  case (Suc n)
  let ?stats = "all_stats ids"
  show ?case
  proof (cases "py_max (map fst ?stats) (stats_get ?stats)")
    case (Inl e)
    then show ?thesis by (simp add: Let_def)
  next
    case (Inr pr)
    from train_step[OF Suc.prems Inr] obtain b0 b1 where
      b: "map_of voc (fst pr) = Some b0" "map_of voc (snd pr) = Some b1"
      and inv': "train_inv (Suc i) (map (\<lambda>c. merge c pr (256 + int i)) ids)
                  (AList.update pr (256 + int i) mrg)
                  (AList.update (256 + int i) (b0 @ b1) voc)"
      by blast
    from Suc.IH[OF inv'] Inr b show ?thesis by (simp add: Let_def)
  qed
qed

lemma train_loop_outcome:
  assumes "train_inv i ids mrg voc"
  shows "(rounds_have_pairs n i ids \<longrightarrow> (\<exists>r. train_loop n i ids mrg voc = Inr r))
       \<and> (\<not> rounds_have_pairs n i ids \<longrightarrow> train_loop n i ids mrg voc = Inl ValueError)"
proof (cases "train_loop n i ids mrg voc")
  case (Inl e)
  with train_loop_error[OF assms Inl] train_loop_ok_iff[OF assms, of n] show ?thesis by auto
next
  case (Inr r)
  with train_loop_ok_iff[OF assms, of n] show ?thesis by auto
qed

lemma train_outcome:
  assumes vs: "256 \<le> vocab_size" and ids: "chunk_ids (compiled_pattern t s) = Inr ids"
  shows "(rounds_have_pairs (nat (vocab_size - 256)) 0 ids \<longrightarrow> (\<exists>t'. train t s vocab_size = Inr t'))
       \<and> (\<not> rounds_have_pairs (nat (vocab_size - 256)) 0 ids
            \<longrightarrow> train t s vocab_size = Inl ValueError)"
proof -
  note inv = train_inv_init[OF chunk_ids_bytes[OF ids]]
  from train_loop_outcome[OF inv, of "nat (vocab_size - 256)"] vs ids show ?thesis
    by (auto simp add: train_def Let_def split: sum.splits)
qed

lemma rounds_no_pairs:
  "\<forall>c \<in> set ids. length c < 2 \<Longrightarrow> \<not> rounds_have_pairs (Suc n) i ids"
proof -
  assume "\<forall>c \<in> set ids. length c < 2"
  then obtain e where "py_max (map fst (all_stats ids)) (stats_get (all_stats ids)) = Inl e"
    using no_pairs_iff[of ids "stats_get (all_stats ids)"] by blast
  then show ?thesis by (simp add: Let_def)
qed

section \<open>UTF-8: decoding undoes encoding\<close>

lemma utf8_decode_1: "c < 0x80 \<Longrightarrow> utf8_decode (utf8_char c @ rest) = c # utf8_decode rest"
  by (simp add: utf8_char_def)

lemma utf8_decode_2:
  assumes "0x80 \<le> c" "c < 0x800"
  shows "utf8_decode (utf8_char c @ rest) = c # utf8_decode rest"
proof -
  define q r where "q = c div 64" and "r = c mod 64"
  have c: "c = 64 * q + r" and r: "r < 64" by (simp_all add: q_def r_def)
  from assms c r have q: "2 \<le> q" "q \<le> 31" by linarith+
  have "utf8_char c = [0xC0 + q, 0x80 + r]"
    using assms by (simp add: utf8_char_def q_def r_def)
  then show ?thesis using q r c by (simp add: cont_def)
qed

lemma split_3_bytes: "(c::nat) = 4096 * (c div 4096) + 64 * (c div 64 mod 64) + c mod 64"
proof -
  have "c mod (64 * 64) = 64 * (c div 64 mod 64) + c mod 64" by (rule mod_mult2_eq)
  then have "c mod 4096 = 64 * (c div 64 mod 64) + c mod 64" by simp
  moreover have "c = 4096 * (c div 4096) + c mod 4096" by simp
  ultimately show ?thesis by linarith
qed

lemma split_4_bytes:
  "(c::nat) = 262144 * (c div 262144) + 4096 * (c div 4096 mod 64) + 64 * (c div 64 mod 64) + c mod 64"
proof -
  have "c mod (4096 * 64) = 4096 * (c div 4096 mod 64) + c mod 4096" by (rule mod_mult2_eq)
  then have "c mod 262144 = 4096 * (c div 4096 mod 64) + c mod 4096" by simp
  moreover have "c mod (64 * 64) = 64 * (c div 64 mod 64) + c mod 64" by (rule mod_mult2_eq)
  then have "c mod 4096 = 64 * (c div 64 mod 64) + c mod 64" by simp
  moreover have "c = 262144 * (c div 262144) + c mod 262144" by simp
  ultimately show ?thesis by linarith
qed

lemma utf8_decode_3:
  assumes "0x800 \<le> c" "c < 0x10000" "\<not> is_surrogate c"
  shows "utf8_decode (utf8_char c @ rest) = c # utf8_decode rest"
proof -
  define a b d where "a = c div 4096" and "b = c div 64 mod 64" and "d = c mod 64"
  have c: "c = 4096 * a + 64 * b + d"
    unfolding a_def b_def d_def by (rule split_3_bytes)
  have b: "b < 64" and d: "d < 64" by (simp_all add: b_def d_def)
  from assms c b d have a: "a \<le> 15" by linarith
  from assms c b d have e0: "a = 0 \<Longrightarrow> 32 \<le> b" by linarith
  from assms c b d have ed: "a = 13 \<Longrightarrow> b \<le> 31" unfolding is_surrogate_def by linarith
  have "utf8_char c = [0xE0 + a, 0x80 + b, 0x80 + d]"
    using assms by (simp add: utf8_char_def a_def b_def d_def)
  then show ?thesis using a b d c e0 ed by (simp add: cont_def second_ok_def)
qed

lemma utf8_decode_4:
  assumes "0x10000 \<le> c" "c < 0x110000"
  shows "utf8_decode (utf8_char c @ rest) = c # utf8_decode rest"
proof -
  define a b d e where "a = c div 262144" and "b = c div 4096 mod 64"
    and "d = c div 64 mod 64" and "e = c mod 64"
  have c: "c = 262144 * a + 4096 * b + 64 * d + e"
    unfolding a_def b_def d_def e_def by (rule split_4_bytes)
  have b: "b < 64" and d: "d < 64" and e: "e < 64" by (simp_all add: b_def d_def e_def)
  from assms c b d e have a: "a \<le> 4" by linarith
  from assms c b d e have f0: "a = 0 \<Longrightarrow> 16 \<le> b" by linarith
  from assms c b d e have f4: "a = 4 \<Longrightarrow> b \<le> 15" by linarith
  have "utf8_char c = [0xF0 + a, 0x80 + b, 0x80 + d, 0x80 + e]"
    using assms by (simp add: utf8_char_def a_def b_def d_def e_def)
  then show ?thesis using a b d e c f0 f4 by (simp add: cont_def second_ok_def)
qed

lemma utf8_decode_char:
  "encodable c \<Longrightarrow> utf8_decode (utf8_char c @ rest) = c # utf8_decode rest"
  using utf8_decode_1[of c rest] utf8_decode_2[of c rest] utf8_decode_3[of c rest]
    utf8_decode_4[of c rest]
  unfolding encodable_def by linarith

lemma utf8_roundtrip: "list_all encodable s \<Longrightarrow> utf8_decode (concat (map utf8_char s)) = s"
  by (induction s) (simp_all add: utf8_decode_char)

section \<open>Encoding keeps the bytes\<close>

lemma merge_spec_expand:
  assumes "map_of voc a = Some ba" "map_of voc b = Some bb" "map_of voc idx = Some (ba @ bb)"
  shows "known voc ids \<Longrightarrow>
    known voc (merge_spec ids (a, b) idx) \<and> expand voc (merge_spec ids (a, b) idx) = expand voc ids"
  using assms
  by (induction ids "(a, b)" idx rule: merge_spec.induct)
     (auto simp add: known_def expand_def bytes_of_def)

lemma encode_chunk_while_expand:
  "vocab_ok mrg voc \<Longrightarrow> known voc ids \<Longrightarrow>
   \<exists>out. encode_chunk_while mrg ids = Inr out \<and> known voc out \<and> expand voc out = expand voc ids"
proof (induction mrg ids rule: encode_chunk_while.induct)
  case (1 mrg ids)
  show ?case
  proof (cases "2 \<le> length ids")
    case False
    with "1.prems" show ?thesis by (simp add: encode_chunk_while_short)
  next
    case True
    obtain p where p: "py_min (map fst (get_stats ids [])) (map_of mrg) = Inr p"
      using py_min_stats[OF True] by blast
    show ?thesis
    proof (cases "map_of mrg p")
      case None
      with p True "1.prems" show ?thesis by (subst encode_chunk_while.simps) simp
    next
      case (Some idx)
      obtain a b where ab: "p = (a, b)" by (cases p)
      from "1.prems"(1) Some ab obtain ba bb where v: "map_of voc a = Some ba"
        "map_of voc b = Some bb" "map_of voc idx = Some (ba @ bb)"
        unfolding vocab_ok_def by blast
      from merge_spec_expand[OF v "1.prems"(2)] ab
      have k: "known voc (merge ids p idx)" and e: "expand voc (merge ids p idx) = expand voc ids"
        by (simp_all add: merge_eq_spec)
      from "1.IH"[OF True p Some "1.prems"(1) k] e p Some True show ?thesis
        by (subst encode_chunk_while.simps) simp
    qed
  qed
qed

lemma known_bytes:
  "vocab_ok mrg voc \<Longrightarrow> \<forall>x \<in> set bs. x < 256 \<Longrightarrow>
   known voc (map int bs) \<and> expand voc (map int bs) = bs"
  by (induction bs) (auto simp add: known_def expand_def bytes_of_def vocab_ok_def)

lemma decode_parts_known:
  "known (vocab t) ids \<Longrightarrow> decode_parts t ids = Inr (map (bytes_of (vocab t)) ids)"
  by (induction ids) (auto simp add: known_def bytes_of_def)

lemma encode_chunks_expand:
  "vocab_ok (merges t) (vocab t) \<Longrightarrow> list_all (list_all encodable) chunks \<Longrightarrow>
   \<exists>ids. encode_chunks t chunks = Inr ids \<and> known (vocab t) ids
     \<and> expand (vocab t) ids = concat (map utf8_char (concat chunks))"
proof (induction chunks)
  case Nil
  then show ?case by (simp add: known_def expand_def)
next
  case (Cons c cs)
  from Cons.prems(2) have enc: "utf8_encode c = Inr (concat (map utf8_char c))"
    by (simp add: utf8_encode_def)
  from known_bytes[OF Cons.prems(1) utf8_encode_bytes[OF enc]]
  have kb: "known (vocab t) (map int (concat (map utf8_char c)))"
    and eb: "expand (vocab t) (map int (concat (map utf8_char c))) = concat (map utf8_char c)"
    by simp_all
  from encode_chunk_while_expand[OF Cons.prems(1) kb] eb obtain out where
    out: "encode_chunk t (concat (map utf8_char c)) = Inr out" "known (vocab t) out"
      "expand (vocab t) out = concat (map utf8_char c)"
    by (auto simp add: encode_chunk_def)
  from Cons.IH[OF Cons.prems(1)] Cons.prems(2) obtain ids where
    ids: "encode_chunks t cs = Inr ids" "known (vocab t) ids"
      "expand (vocab t) ids = concat (map utf8_char (concat cs))"
    by auto
  from enc out ids show ?case
    by (simp add: known_def expand_def)
qed

lemma roundtrip_inv:
  assumes "vocab_ok (merges t) (vocab t)" "list_all encodable s"
    "concat (compiled_pattern t s) = s"
  shows "\<exists>ids. encode_ordinary t s = Inr ids \<and> decode t ids = Inr s"
proof -
  have "list_all (list_all encodable) (compiled_pattern t s)"
  proof -
    have "\<forall>c \<in> set (compiled_pattern t s). set c \<subseteq> set (concat (compiled_pattern t s))"
      by auto
    with assms(2,3) show ?thesis by (auto simp add: list_all_iff)
  qed
  from encode_chunks_expand[OF assms(1) this] assms(3) obtain ids where
    ids: "encode_chunks t (compiled_pattern t s) = Inr ids" "known (vocab t) ids"
      "expand (vocab t) ids = concat (map utf8_char s)"
    by auto
  from decode_parts_known[OF ids(2)] ids(3) have "decode t ids = Inr (utf8_decode (concat (map utf8_char s)))"
    by (simp add: decode_def expand_def)
  with utf8_roundtrip[OF assms(2)] ids(1) show ?thesis
    by (simp add: encode_ordinary_def)
qed

section \<open>The encoder and the special tokens\<close>







declare re_split_loop.simps [simp del]



lemma map_of_filter_None:
  "\<forall>(k, v) \<in> set sp. k \<in> S \<longrightarrow> k \<noteq> x \<Longrightarrow> map_of (filter (\<lambda>(k, v). k \<in> S) sp) x = None"
  by (induction sp) auto


section \<open>Decoding and saving\<close>

lemma decode_parts_append_known:
  "\<forall>i \<in> set pre. map_of (vocab t) i \<noteq> None \<Longrightarrow> decode_parts t rest = Inl e \<Longrightarrow>
   decode_parts t (pre @ rest) = Inl e"
  by (induction pre) auto

lemma keys_inverted_merges_aux:
  "fst ` set (fold (\<lambda>(pr, idx) d. AList.update idx pr d) ms d)
     = fst ` set d \<union> snd ` set ms"
  by (induction ms arbitrary: d) (auto simp add: AList.dom_update split: prod.splits)

lemma keys_inverted_merges: "fst ` set (inverted_merges t) = snd ` set (merges t)"
  using keys_inverted_merges_aux[of "merges t" "[]"] by (simp add: inverted_merges_def)

lemma save_first_leaf:
  assumes "tok_inv t"
  shows "vocab_lines render t (vocab t) [] = ([], Inl AttributeError)"
proof -
  from assms obtain k where k: "map fst (vocab t) = map int [0..<256 + k]"
    "map snd (merges t) = map (\<lambda>j. 256 + int j) [0..<k]"
    unfolding tok_inv_def by blast
  have "[0..<256 + k] = 0 # [1..<256 + k]" by (simp add: upt_conv_Cons)
  with k(1) obtain b rest where v: "vocab t = (0, b) # rest"
    by (cases "vocab t") auto
  have "snd ` set (merges t) = set (map snd (merges t))" by simp
  also have "\<dots> = (\<lambda>j. 256 + int j) ` {0..<k}" unfolding k(2) by simp
  finally have "0 \<notin> snd ` set (merges t)" by auto
  then have "map_of (inverted_merges t) 0 = None"
    by (simp add: map_of_eq_None_iff keys_inverted_merges)
  with v show ?thesis by simp
qed

section \<open>The examples of the specification\<close>

lemma re_split_example:
  "re_split [END] (str_of ''hi<END>bye'') = [str_of ''hi'', END, str_of ''bye'']"
  by (simp add: re_split_def str_of_def END_def re_split_loop.simps)

lemma contains_example: "contains END (str_of ''hi<END>bye'')"
  by (simp add: str_of_def END_def)

lemma encode_chunk_while_no_merges: "encode_chunk_while [] ids = Inr ids"
proof (cases "2 \<le> length ids")
  case True
  obtain p where "py_min (map fst (get_stats ids [])) (map_of []) = Inr p"
    using py_min_stats[OF True] by blast
  with True show ?thesis by (subst encode_chunk_while.simps) simp
qed (simp add: encode_chunk_while_short)

lemma encode_ordinary_plain:
  "s \<noteq> [] \<Longrightarrow> list_all encodable s \<Longrightarrow>
   encode_ordinary (register_special_tokens plain_tokenizer sp) s
     = Inr (map int (concat (map utf8_char s)))"
  by (simp add: encode_ordinary_def register_special_tokens_def plain_tokenizer_def
      RegexTokenizer_init_def findall_whole_def utf8_encode_def encode_chunk_def
      encode_chunk_while_no_merges)

lemma map_of_byte_vocab_num: "0 \<le> k \<Longrightarrow> k < 256 \<Longrightarrow> map_of byte_vocab k = Some [nat k]"
  using map_of_byte_vocab[of "nat k"] by simp

lemma chunk_ids_aaab: "chunk_ids (findall_whole (str_of ''aaab'')) = Inr [[97, 97, 97, 98]]"
  by (simp add: findall_whole_def str_of_def utf8_encode_def encodable_def is_surrogate_def
      utf8_char_def)

lemma all_stats_aaab: "all_stats [[97, 97, 97, 98]] = [((97, 97), 2), ((97, 98), 1)]"
  by (simp add: all_stats_def get_stats_def bump_def)

lemma py_max_aaab:
  "py_max (map fst (all_stats [[97, 97, 97, 98]])) (stats_get (all_stats [[97, 97, 97, 98]]))
     = Inr (97, 97)"
  by (simp add: all_stats_aaab py_max_def stats_get_def)

lemma trained_example_value:
  "trained_example =
     Inr (plain_tokenizer\<lparr>merges := [((97, 97), 256)],
            vocab := AList.update 256 [97, 97] byte_vocab\<rparr>)"
  by (simp add: trained_example_def train_def plain_tokenizer_def RegexTokenizer_init_def
      chunk_ids_aaab py_max_aaab map_of_byte_vocab_num Let_def)

lemma rounds_aaab: "rounds_have_pairs (nat (257 - 256)) 0 [[97, 97, 97, 98]]"
proof -
  have "nat (257 - 256) = Suc 0" by simp
  then show ?thesis by (simp add: py_max_aaab Let_def)
qed

lemma chunk_ids_ab: "chunk_ids (findall_whole (str_of ''ab'')) = Inr [[97, 98]]"
  by (simp add: findall_whole_def str_of_def utf8_encode_def encodable_def is_surrogate_def
      utf8_char_def)

lemma rounds_ab: "\<not> rounds_have_pairs (nat (258 - 256)) 0 [[97, 98]]"
proof -
  have n: "nat (258 - 256) = Suc (Suc 0)" by simp
  have s1: "all_stats [[97, 98]] = [((97, 98), 1)]"
    by (simp add: all_stats_def get_stats_def bump_def)
  have s2: "all_stats [[256]] = []"
    by (simp add: all_stats_def get_stats_def)
  show ?thesis
    unfolding n by (simp add: s1 s2 py_max_def stats_get_def merge_eq_spec Let_def)
qed

section \<open>The saved files, the vocabulary and the split at special tokens\<close>

lemma save_outcomes:
  assumes "tok_inv t"
  shows "(\<forall>model. write_all enc (model_writes t) [] = (model, Inr ()) \<longrightarrow>
            save enc render t file_prefix =
              ([(file_prefix @ str_of ''.model'', model), (file_prefix @ str_of ''.vocab'', [])],
               Inl AttributeError))
       \<and> (\<forall>model e. write_all enc (model_writes t) [] = (model, Inl e) \<longrightarrow>
            save enc render t file_prefix = ([(file_prefix @ str_of ''.model'', model)], Inl e))"
  using save_first_leaf[OF assms, of render]
  by (simp add: save_def Let_def)

lemma save_fails:
  assumes "tok_inv t"
  shows "\<exists>e. snd (save enc render t file_prefix) = Inl e"
proof (cases "write_all enc (model_writes t) []")
  case (Pair model written)
  show ?thesis
  proof (cases written)
    case (Inl e)
    with Pair save_outcomes[OF assms, of enc render "file_prefix"] show ?thesis by simp
  next
    case (Inr u)
    with Pair save_outcomes[OF assms, of enc render "file_prefix"] show ?thesis by simp
  qed
qed

lemma utf8_encode_ascii: "list_all (\<lambda>c. c < 0x80) s \<Longrightarrow> utf8_encode s = Inr s"
proof -
  assume a: "list_all (\<lambda>c. c < 0x80) s"
  then have "list_all encodable s"
    by (induction s) (auto simp add: encodable_def is_surrogate_def)
  moreover from a have "concat (map utf8_char s) = s"
    by (induction s) (auto simp add: utf8_char_def)
  ultimately show ?thesis by (simp add: utf8_encode_def)
qed

lemma digits_small: "n < 10 \<Longrightarrow> digits n = [48 + n]"
  by simp

lemma write_plain:
  "write_all utf8_encode (model_writes plain_tokenizer) []
     = (str_of ''bpe v1'' @ [10] @ str_of ''(?s).+'' @ [10] @ str_of ''0'' @ [10], Inr ())"
proof -
  have w: "model_writes plain_tokenizer
      = [str_of ''bpe v1'' @ [10], str_of ''(?s).+'' @ [10], str_of ''0'' @ [10]]"
    by (simp add: model_writes_def plain_tokenizer_def RegexTokenizer_init_def show_int_def
        str_of_def)
  show ?thesis
    unfolding w by (simp add: utf8_encode_ascii str_of_def)
qed

lemma write_surrogate:
  "write_all utf8_encode (model_writes (register_special_tokens plain_tokenizer surrogate_token)) []
     = (str_of ''bpe v1'' @ [10] @ str_of ''(?s).+'' @ [10] @ str_of ''1'' @ [10],
        Inl UnicodeEncodeError)"
proof -
  have w: "model_writes (register_special_tokens plain_tokenizer surrogate_token)
      = [str_of ''bpe v1'' @ [10], str_of ''(?s).+'' @ [10], str_of ''1'' @ [10],
         [0xD800, 32, 53, 10]]"
    by (simp add: model_writes_def plain_tokenizer_def RegexTokenizer_init_def show_int_def
        str_of_def register_special_tokens_def surrogate_token_def)
  have bad: "utf8_encode [0xD800, 32, 53, 10] = Inl UnicodeEncodeError"
    by (simp add: utf8_encode_def encodable_def is_surrogate_def)
  show ?thesis
    unfolding w by (simp add: utf8_encode_ascii str_of_def bad)
qed

lemma invert_Nil: "invert [] = []"
  by (simp add: invert_def)

lemma reachable_inverse:
  "reachable t \<Longrightarrow> inverse_special_tokens t = invert (special_tokens t)"
proof (induction rule: reachable.induct)
  case (init pat findall)
  show ?case by (simp add: RegexTokenizer_init_def invert_def)
next
  case (trained t s vocab_size t')
  from trained(2) obtain m v where "t' = t\<lparr>merges := m, vocab := v\<rparr>"
    by (auto simp add: train_def Let_def split: if_splits sum.splits)
  with trained(3) show ?case by simp
next
  case (registered t sp)
  show ?case by (simp add: register_special_tokens_def)
qed

lemma tok_inv_keys:
  assumes "tok_inv t"
  shows "map fst (vocab t) = map int [0..<256 + length (merges t)]"
    and "map snd (merges t) = map (\<lambda>j. 256 + int j) [0..<length (merges t)]"
proof -
  from assms obtain k where k: "map fst (vocab t) = map int [0..<256 + k]"
    "map snd (merges t) = map (\<lambda>j. 256 + int j) [0..<k]"
    unfolding tok_inv_def by blast
  from k(2) have "length (merges t) = k" by (metis length_map length_upt diff_zero)
  with k show "map fst (vocab t) = map int [0..<256 + length (merges t)]"
    and "map snd (merges t) = map (\<lambda>j. 256 + int j) [0..<length (merges t)]"
    by simp_all
qed

lemma tok_inv_mapped:
  assumes "tok_inv t"
  shows "map_of (vocab t) i \<noteq> None \<longleftrightarrow> 0 \<le> i \<and> i < 256 + int (length (merges t))"
proof -
  have "map_of (vocab t) i \<noteq> None \<longleftrightarrow> i \<in> fst ` set (vocab t)"
    by (simp add: map_of_eq_None_iff)
  also have "\<dots> \<longleftrightarrow> 0 \<le> i \<and> i < int (256 + length (merges t))"
    by (rule keys_range[OF tok_inv_keys(1)[OF assms]])
  finally show ?thesis by simp
qed

lemma tok_inv_merge_ids:
  assumes "tok_inv t" and "map_of (merges t) (a, b) = Some idx"
  shows "256 \<le> idx \<and> idx < 256 + int (length (merges t))
       \<and> (\<exists>ba bb. map_of (vocab t) a = Some ba \<and> map_of (vocab t) b = Some bb
             \<and> map_of (vocab t) idx = Some (ba @ bb))"
proof -
  from assms(2) have "((a, b), idx) \<in> set (merges t)" by (rule map_of_SomeD)
  then have "idx \<in> set (map snd (merges t))" by force
  then have "idx \<in> (\<lambda>j. 256 + int j) ` {0..<length (merges t)}"
    unfolding tok_inv_keys(2)[OF assms(1)] by simp
  then have r: "256 \<le> idx \<and> idx < 256 + int (length (merges t))" by auto
  from assms have "\<exists>ba bb. map_of (vocab t) a = Some ba \<and> map_of (vocab t) b = Some bb
             \<and> map_of (vocab t) idx = Some (ba @ bb)"
    unfolding tok_inv_def vocab_ok_def by blast
  with r show ?thesis by simp
qed

lemma trained_example_reachable:
  "reachable (plain_tokenizer\<lparr>merges := [((97, 97), 256)],
            vocab := AList.update 256 [97, 97] byte_vocab\<rparr>)"
proof -
  have tr: "train plain_tokenizer (str_of ''aaab'') 257
      = Inr (plain_tokenizer\<lparr>merges := [((97, 97), 256)],
            vocab := AList.update 256 [97, 97] byte_vocab\<rparr>)"
    using trained_example_value by (simp add: trained_example_def)
  have "reachable plain_tokenizer" unfolding plain_tokenizer_def by (rule reachable.init)
  then show ?thesis using tr by (rule reachable.trained)
qed






















section \<open>The claims\<close>

text \<open>
  Claim C1 fails as it is stated: \<open>findall\<close> returns the matches of the pattern
  only, so a pattern that does not match every character of the text drops the rest.
  With the pattern \<open>a\<close> the text \<open>"b"\<close> has no chunk, encodes to no id and
  decodes to the empty string.
\<close>

theorem roundtrip_drops_unmatched_counterexample:
  "encode_ordinary letter_a_tokenizer (str_of ''b'') = Inr []
   \<and> decode letter_a_tokenizer [] = Inr []
   \<and> str_of ''b'' \<noteq> []"
  by (simp add: encode_ordinary_def decode_def letter_a_tokenizer_def RegexTokenizer_init_def
      findall_char_def str_of_def)

text \<open>
  Claim C1, amended. For every tokenizer that was constructed, trained or given special
  tokens, and every text without surrogate code points whose chunks under the
  tokenizer's pattern concatenate to the text, \<open>encode_ordinary\<close> succeeds and
  \<open>decode\<close> gives the text back.
\<close>

theorem roundtrip_when_chunks_cover:
  assumes "reachable t" and "list_all encodable s" and "concat (compiled_pattern t s) = s"
  shows "\<exists>ids. encode_ordinary t s = Inr ids \<and> decode t ids = Inr s"
proof -
  from reachable_tok_inv[OF assms(1)] have "vocab_ok (merges t) (vocab t)"
    by (simp add: tok_inv_def)
  from roundtrip_inv[OF this assms(2,3)] show ?thesis .
qed

theorem roundtrip_when_chunks_cover_witness:
  "\<exists>t ids. trained_example = Inr t
     \<and> encode_ordinary t (str_of ''aaab'') = Inr ids
     \<and> decode t ids = Inr (str_of ''aaab'')"
proof -
  let ?t = "plain_tokenizer\<lparr>merges := [((97, 97), 256)],
            vocab := AList.update 256 [97, 97] byte_vocab\<rparr>"
  have tr: "train plain_tokenizer (str_of ''aaab'') 257 = Inr ?t"
    using trained_example_value by (simp add: trained_example_def)
  have "reachable plain_tokenizer" unfolding plain_tokenizer_def by (rule reachable.init)
  then have r: "reachable ?t" using tr by (rule reachable.trained)
  have e: "list_all encodable (str_of ''aaab'')"
    by (simp add: str_of_def encodable_def is_surrogate_def)
  have c: "concat (compiled_pattern ?t (str_of ''aaab'')) = str_of ''aaab''"
    by (simp add: plain_tokenizer_def RegexTokenizer_init_def findall_whole_def)
  from roundtrip_when_chunks_cover [OF r e c] trained_example_value show ?thesis by blast
qed

text \<open>
  Claim C2. \<open>save\<close> does not complete on any tokenizer that was constructed,
  trained or given special tokens, so no \<open>save\<close> and \<open>load\<close> round trip takes
  place. When every write to the model file encodes, \<open>save\<close> leaves the complete
  model file, opens the vocabulary file and raises \<open>AttributeError\<close> at the first
  vocabulary entry (id 0, a token without children). When a write does not encode (a
  pattern or a special token with a lone surrogate), \<open>save\<close> raises that error and
  leaves the model file as written so far and no vocabulary file.
\<close>

theorem save_never_completes:
  assumes "reachable t"
  shows "(\<exists>e. snd (save enc render t file_prefix) = Inl e)
       \<and> (\<forall>model. write_all enc (model_writes t) [] = (model, Inr ()) \<longrightarrow>
            save enc render t file_prefix =
              ([(file_prefix @ str_of ''.model'', model), (file_prefix @ str_of ''.vocab'', [])],
               Inl AttributeError))
       \<and> (\<forall>model e. write_all enc (model_writes t) [] = (model, Inl e) \<longrightarrow>
            save enc render t file_prefix = ([(file_prefix @ str_of ''.model'', model)], Inl e))"
  using save_fails[OF reachable_tok_inv[OF assms], of enc render "file_prefix"]
    save_outcomes[OF reachable_tok_inv[OF assms], of enc render "file_prefix"]
  by (rule conjI)

theorem save_never_completes_witness:
  "save utf8_encode (\<lambda>b. []) plain_tokenizer (str_of ''tok'')
     = ([(str_of ''tok.model'', str_of ''bpe v1'' @ [10] @ str_of ''(?s).+'' @ [10]
           @ str_of ''0'' @ [10]),
         (str_of ''tok.vocab'', [])],
        Inl AttributeError)
   \<and> save utf8_encode (\<lambda>b. []) (register_special_tokens plain_tokenizer surrogate_token)
        (str_of ''tok'')
     = ([(str_of ''tok.model'', str_of ''bpe v1'' @ [10] @ str_of ''(?s).+'' @ [10]
           @ str_of ''1'' @ [10])],
        Inl UnicodeEncodeError)"
proof -
  have r: "reachable plain_tokenizer" unfolding plain_tokenizer_def by (rule reachable.init)
  then have r2: "reachable (register_special_tokens plain_tokenizer surrogate_token)"
    by (rule reachable.registered)
  have n: "str_of ''tok'' @ str_of ''.model'' = str_of ''tok.model''"
    "str_of ''tok'' @ str_of ''.vocab'' = str_of ''tok.vocab''"
    by (simp_all add: str_of_def)
  from save_never_completes [OF r, of utf8_encode "\<lambda>b. []" "str_of ''tok''"] write_plain
  have a: "save utf8_encode (\<lambda>b. []) plain_tokenizer (str_of ''tok'')
     = ([(str_of ''tok.model'', str_of ''bpe v1'' @ [10] @ str_of ''(?s).+'' @ [10]
           @ str_of ''0'' @ [10]),
         (str_of ''tok.vocab'', [])],
        Inl AttributeError)"
    unfolding n by blast
  from save_never_completes [OF r2, of utf8_encode "\<lambda>b. []" "str_of ''tok''"] write_surrogate
  have b: "save utf8_encode (\<lambda>b. []) (register_special_tokens plain_tokenizer surrogate_token)
        (str_of ''tok'')
     = ([(str_of ''tok.model'', str_of ''bpe v1'' @ [10] @ str_of ''(?s).+'' @ [10]
           @ str_of ''1'' @ [10])],
        Inl UnicodeEncodeError)"
    unfolding n by blast
  from a b show ?thesis by (rule conjI)
qed

text \<open>
  Claim C3. With the merge table \<open>[(1,2) -> 256, (256,3) -> 257]\<close> the bytes
  \<open>[1, 2, 3]\<close> encode to \<open>[257]\<close>. In general, on a sequence of two or more ids
  the loop stops when no adjacent pair is in the merge table, and otherwise merges an
  adjacent pair whose table id is the lowest among the adjacent pairs in the table, and
  goes on from the merged sequence.
\<close>

theorem encode_chunk_lowest_id_first:
  "encode_chunk (t\<lparr>merges := example_merges\<rparr>) [1, 2, 3] = Inr [257]
   \<and> (2 \<le> length ids \<longrightarrow>
        ((\<forall>q \<in> set (zip ids (drop 1 ids)). map_of mrg q = None)
           \<longrightarrow> encode_chunk_while mrg ids = Inr ids)
        \<and> ((\<exists>q \<in> set (zip ids (drop 1 ids)). map_of mrg q \<noteq> None)
           \<longrightarrow> (\<exists>p idx. p \<in> set (zip ids (drop 1 ids)) \<and> map_of mrg p = Some idx
                 \<and> (\<forall>q j. q \<in> set (zip ids (drop 1 ids)) \<and> map_of mrg q = Some j \<longrightarrow> idx \<le> j)
                 \<and> encode_chunk_while mrg ids = encode_chunk_while mrg (merge ids p idx))))"
proof (rule conjI)
  show "encode_chunk (t\<lparr>merges := example_merges\<rparr>) [1, 2, 3] = Inr [257]"
    using encode_chunk_while_example by (simp add: encode_chunk_def example_merges_def)
next
  show "2 \<le> length ids \<longrightarrow>
        ((\<forall>q \<in> set (zip ids (drop 1 ids)). map_of mrg q = None)
           \<longrightarrow> encode_chunk_while mrg ids = Inr ids)
        \<and> ((\<exists>q \<in> set (zip ids (drop 1 ids)). map_of mrg q \<noteq> None)
           \<longrightarrow> (\<exists>p idx. p \<in> set (zip ids (drop 1 ids)) \<and> map_of mrg p = Some idx
                 \<and> (\<forall>q j. q \<in> set (zip ids (drop 1 ids)) \<and> map_of mrg q = Some j \<longrightarrow> idx \<le> j)
                 \<and> encode_chunk_while mrg ids = encode_chunk_while mrg (merge ids p idx)))"
  proof (rule impI)
    assume len: "2 \<le> length ids"
    show "((\<forall>q \<in> set (zip ids (drop 1 ids)). map_of mrg q = None)
           \<longrightarrow> encode_chunk_while mrg ids = Inr ids)
        \<and> ((\<exists>q \<in> set (zip ids (drop 1 ids)). map_of mrg q \<noteq> None)
           \<longrightarrow> (\<exists>p idx. p \<in> set (zip ids (drop 1 ids)) \<and> map_of mrg p = Some idx
                 \<and> (\<forall>q j. q \<in> set (zip ids (drop 1 ids)) \<and> map_of mrg q = Some j \<longrightarrow> idx \<le> j)
                 \<and> encode_chunk_while mrg ids = encode_chunk_while mrg (merge ids p idx)))"
      using encode_chunk_while_step(1)[OF len, of mrg] encode_chunk_while_step(2)[OF len, of mrg]
      by (rule conjI)
  qed
qed

theorem encode_chunk_lowest_id_first_witness:
  "\<exists>p idx. p \<in> set (zip [1, 2, 3] (drop 1 [1, 2, 3]))
     \<and> map_of example_merges p = Some idx
     \<and> encode_chunk_while example_merges [1, 2, 3]
         = encode_chunk_while example_merges (merge [1, 2, 3] p idx)"
proof -
  have len: "2 \<le> length [1, 2, 3 :: token]" by simp
  have ex: "\<exists>q \<in> set (zip [1, 2, 3 :: token] (drop 1 [1, 2, 3])). map_of example_merges q \<noteq> None"
    by (rule bexI[of _ "(1, 2)"]) (simp_all add: example_merges_def)
  from encode_chunk_lowest_id_first [of "RegexTokenizer_init [] (\<lambda>s. [])" "[1, 2, 3]" example_merges] len ex
  obtain p idx where "p \<in> set (zip [1, 2, 3] (drop 1 [1, 2, 3]))"
    "map_of example_merges p = Some idx"
    "encode_chunk_while example_merges [1, 2, 3]
         = encode_chunk_while example_merges (merge [1, 2, 3] p idx)"
    by blast
  then show ?thesis by blast
qed

text \<open>
  Claim C4. With the special token \<open>"<END>"\<close> registered at id 100256,
  \<open>encode("hi<END>bye")\<close> under the policy \<open>"all"\<close> is
  \<open>encode_ordinary("hi")\<close>, then \<open>100256\<close>, then \<open>encode_ordinary("bye")\<close> (and
  fails as the first of these that fails), and under the policy \<open>"none_raise"\<close> it
  fails with an \<open>AssertionError\<close>.
\<close>

theorem encode_special_token_exact:
  "encode (register_special_tokens t end_token) (str_of ''hi<END>bye'') All =
     (case encode_ordinary (register_special_tokens t end_token) (str_of ''hi'') of
        Inl e \<Rightarrow> Inl e
      | Inr a \<Rightarrow>
          (case encode_ordinary (register_special_tokens t end_token) (str_of ''bye'') of
             Inl e \<Rightarrow> Inl e
           | Inr b \<Rightarrow> Inr (a @ [100256] @ b)))
   \<and> encode (register_special_tokens t end_token) (str_of ''hi<END>bye'') NoneRaise
       = Inl AssertionError"
proof -
  have ne1: "str_of ''hi'' \<noteq> END" and ne2: "str_of ''bye'' \<noteq> END"
    by (simp_all add: str_of_def END_def)
  show ?thesis
    by (simp add: encode_def select_special_def register_special_tokens_def end_token_def
        re_split_example contains_example ne1 ne2 split: sum.splits)
qed

theorem encode_special_token_exact_witness:
  "encode (register_special_tokens plain_tokenizer end_token) (str_of ''hi<END>bye'') All
     = Inr [104, 105, 100256, 98, 121, 101]
   \<and> encode (register_special_tokens plain_tokenizer end_token) (str_of ''hi<END>bye'') NoneRaise
       = Inl AssertionError"
proof -
  have hi: "encode_ordinary (register_special_tokens plain_tokenizer end_token) (str_of ''hi'')
      = Inr [104, 105]"
    by (subst encode_ordinary_plain) (simp_all add: str_of_def encodable_def is_surrogate_def utf8_char_def)
  have bye: "encode_ordinary (register_special_tokens plain_tokenizer end_token) (str_of ''bye'')
      = Inr [98, 121, 101]"
    by (subst encode_ordinary_plain) (simp_all add: str_of_def encodable_def is_surrogate_def utf8_char_def)
  from encode_special_token_exact [of plain_tokenizer] show ?thesis
    by (simp add: hi bye)
qed

text \<open>
  Claim C5. \<open>merge(ids, pair, idx)\<close> returns the sequence the specification
  describes: every non-overlapping occurrence of the pair, found scanning left to right
  and resuming right after a replacement, is replaced by \<open>idx\<close>
  (\<open>merge_spec\<close>); the loop leaves the list \<open>ids\<close> it was given as it was;
  \<open>[x, a, b, a, b]\<close> with pair \<open>(a, b)\<close> gives \<open>[x, idx, idx]\<close> (for
  \<open>x, a, b\<close> not all the same id), and \<open>[a, a, b]\<close> with pair \<open>(a, a)\<close>
  consumes the first two elements.
\<close>

theorem merge_replaces_pairs:
  "merge ids pr idx = merge_spec ids pr idx
   \<and> m_ids (merge_while pr idx \<lparr>m_ids = ids, m_newids = [], m_i = 0\<rparr>) = ids
   \<and> (x \<noteq> a \<or> a \<noteq> b \<longrightarrow> merge [x, a, b, a, b] (a, b) idx = [x, idx, idx])
   \<and> merge [a, a, b] (a, a) idx = [idx, b]"
  by (auto simp add: merge_eq_spec merge_while_ids)

theorem merge_replaces_pairs_witness:
  "merge [7, 1, 2, 1, 2] (1, 2) 256 = [7, 256, 256]
   \<and> m_ids (merge_while (1, 2) 256 \<lparr>m_ids = [7, 1, 2, 1, 2], m_newids = [], m_i = 0\<rparr>)
       = [7, 1, 2, 1, 2]
   \<and> merge [1, 1, 2] (1, 1) 256 = [256, 2]"
  using merge_replaces_pairs [of "[7, 1, 2, 1, 2]" "(1, 2)" 256 7 1 2]
        merge_replaces_pairs [of "[1, 1, 2]" "(1, 1)" 256 7 1 2]
  by simp

text \<open>
  Claim C7 fails as it is stated: on the empty text with \<open>vocab_size = 257\<close> the
  first round has no pair and \<open>max\<close> of the empty statistics raises
  \<open>ValueError\<close>.
\<close>

theorem train_crashes_on_short_corpus_counterexample:
  "(256 :: int) \<le> 257 \<and> train plain_tokenizer [] 257 = Inl ValueError"
  by (simp add: train_def plain_tokenizer_def RegexTokenizer_init_def findall_whole_def
      all_stats_def py_max_def Let_def)

text \<open>
  Claim C7, amended. For \<open>vocab_size >= 256\<close> and a text whose chunks encode,
  \<open>train\<close> succeeds when every round finds an adjacent pair in some chunk and raises
  \<open>ValueError\<close> otherwise, and nothing else: it succeeds for \<open>vocab_size = 256\<close>,
  and raises for \<open>vocab_size > 256\<close> when no chunk has two bytes.
\<close>

theorem train_raises_only_without_pairs:
  assumes "256 \<le> vocab_size" and "chunk_ids (compiled_pattern t s) = Inr ids"
  shows "(rounds_have_pairs (nat (vocab_size - 256)) 0 ids
            \<longrightarrow> (\<exists>t'. train t s vocab_size = Inr t'))
       \<and> (\<not> rounds_have_pairs (nat (vocab_size - 256)) 0 ids
            \<longrightarrow> train t s vocab_size = Inl ValueError)
       \<and> (vocab_size = 256 \<longrightarrow> (\<exists>t'. train t s vocab_size = Inr t'))
       \<and> (256 < vocab_size \<and> (\<forall>c \<in> set ids. length c < 2)
            \<longrightarrow> train t s vocab_size = Inl ValueError)"
proof -
  note o = train_outcome[OF assms]
  have a: "vocab_size = 256 \<longrightarrow> (\<exists>t'. train t s vocab_size = Inr t')"
    using o by auto
  have b: "256 < vocab_size \<and> (\<forall>c \<in> set ids. length c < 2)
            \<longrightarrow> train t s vocab_size = Inl ValueError"
  proof
    assume h: "256 < vocab_size \<and> (\<forall>c \<in> set ids. length c < 2)"
    then obtain n where n: "nat (vocab_size - 256) = Suc n"
      by (cases "nat (vocab_size - 256)") auto
    from rounds_no_pairs[of ids n 0] h n o show "train t s vocab_size = Inl ValueError"
      by simp
  qed
  from o a b show ?thesis by blast
qed

theorem train_raises_only_without_pairs_witness:
  "(\<exists>t'. train plain_tokenizer (str_of ''aaab'') 257 = Inr t')
   \<and> train plain_tokenizer (str_of ''ab'') 258 = Inl ValueError"
proof -
  have v1: "(256 :: int) \<le> 257" and v2: "(256 :: int) \<le> 258" by simp_all
  have c1: "chunk_ids (compiled_pattern plain_tokenizer (str_of ''aaab'')) = Inr [[97, 97, 97, 98]]"
    using chunk_ids_aaab by (simp add: plain_tokenizer_def RegexTokenizer_init_def)
  have c2: "chunk_ids (compiled_pattern plain_tokenizer (str_of ''ab'')) = Inr [[97, 98]]"
    using chunk_ids_ab by (simp add: plain_tokenizer_def RegexTokenizer_init_def)
  from train_raises_only_without_pairs [OF v1 c1] rounds_aaab
  have a: "\<exists>t'. train plain_tokenizer (str_of ''aaab'') 257 = Inr t'" by blast
  from train_raises_only_without_pairs [OF v2 c2] rounds_ab
  have b: "train plain_tokenizer (str_of ''ab'') 258 = Inl ValueError" by blast
  from a b show ?thesis by (rule conjI)
qed

text \<open>
  Claim C8 fails as it is stated: \<open>register_special_tokens\<close> neither rebuilds the
  vocabulary nor adds to the special tokens. After registering \<open>"<END>"\<close> on a new
  tokenizer the vocabulary still has 256 entries and does not map the id 100256, and
  after registering \<open>"<PAD>"\<close> next, \<open>"<END>"\<close> is no longer a special token.
\<close>

theorem vocab_not_rebuilt_counterexample:
  "length (vocab (register_special_tokens plain_tokenizer end_token))
     \<noteq> 256 + length (merges (register_special_tokens plain_tokenizer end_token))
         + length (special_tokens (register_special_tokens plain_tokenizer end_token))
   \<and> map_of (vocab (register_special_tokens plain_tokenizer end_token)) 100256 = None
   \<and> map_of (special_tokens
         (register_special_tokens (register_special_tokens plain_tokenizer end_token) pad_token))
        END = None"
proof -
  have "map_of byte_vocab 100256 = None"
    by (auto simp add: map_of_eq_None_iff byte_vocab_def)
  then show ?thesis
    by (simp add: register_special_tokens_def plain_tokenizer_def RegexTokenizer_init_def
        end_token_def pad_token_def byte_vocab_def END_def str_of_def)
qed

text \<open>
  Claim C8, amended. In every state of a tokenizer that was constructed, trained or
  given special tokens, the vocabulary maps exactly the ids \<open>0 .. 255 + |merges|\<close>,
  once each and in order: every byte id to its byte and every merge id in use to the
  concatenation of the byte strings of its pair, so that
  \<open>len(vocabulary) == 256 + |merges|\<close>. The inverse special-token map is the inverse
  of the special tokens. \<open>register_special_tokens\<close> sets the special tokens to the
  given ones and leaves the vocabulary as it was, which therefore maps no special-token
  id outside \<open>0 .. 255 + |merges|\<close>.
\<close>

theorem vocab_maps_bytes_and_merges:
  assumes "reachable t"
  shows "map fst (vocab t) = map int [0..<256 + length (merges t)]
       \<and> length (vocab t) = 256 + length (merges t)
       \<and> (\<forall>i. map_of (vocab t) i \<noteq> None \<longleftrightarrow> 0 \<le> i \<and> i < 256 + int (length (merges t)))
       \<and> (\<forall>i<256. map_of (vocab t) (int i) = Some [i])
       \<and> (\<forall>a b idx. map_of (merges t) (a, b) = Some idx \<longrightarrow>
             256 \<le> idx \<and> idx < 256 + int (length (merges t))
             \<and> (\<exists>ba bb. map_of (vocab t) a = Some ba \<and> map_of (vocab t) b = Some bb
                   \<and> map_of (vocab t) idx = Some (ba @ bb)))
       \<and> inverse_special_tokens t = invert (special_tokens t)
       \<and> special_tokens (register_special_tokens t sp) = sp
       \<and> vocab (register_special_tokens t sp) = vocab t
       \<and> (\<forall>s idx. map_of sp s = Some idx \<and> \<not> (0 \<le> idx \<and> idx < 256 + int (length (merges t)))
             \<longrightarrow> map_of (vocab (register_special_tokens t sp)) idx = None)"
proof -
  note inv = reachable_tok_inv[OF assms]
  have a: "map fst (vocab t) = map int [0..<256 + length (merges t)]"
    by (rule tok_inv_keys(1)[OF inv])
  have b: "length (vocab t) = 256 + length (merges t)"
    by (rule tok_inv_length[OF inv])
  have c: "\<forall>i. map_of (vocab t) i \<noteq> None \<longleftrightarrow> 0 \<le> i \<and> i < 256 + int (length (merges t))"
    using tok_inv_mapped[OF inv] by blast
  have d: "\<forall>i<256. map_of (vocab t) (int i) = Some [i]"
    using inv unfolding tok_inv_def vocab_ok_def by blast
  have e: "\<forall>a b idx. map_of (merges t) (a, b) = Some idx \<longrightarrow>
             256 \<le> idx \<and> idx < 256 + int (length (merges t))
             \<and> (\<exists>ba bb. map_of (vocab t) a = Some ba \<and> map_of (vocab t) b = Some bb
                   \<and> map_of (vocab t) idx = Some (ba @ bb))"
    using tok_inv_merge_ids[OF inv] by blast
  have f: "inverse_special_tokens t = invert (special_tokens t)"
    by (rule reachable_inverse[OF assms])
  have g: "special_tokens (register_special_tokens t sp) = sp"
    and h: "vocab (register_special_tokens t sp) = vocab t"
    by (simp_all add: register_special_tokens_def)
  have i: "\<forall>s idx. map_of sp s = Some idx \<and> \<not> (0 \<le> idx \<and> idx < 256 + int (length (merges t)))
             \<longrightarrow> map_of (vocab (register_special_tokens t sp)) idx = None"
    unfolding h using tok_inv_mapped[OF inv] by blast
  from a b c d e f g h i show ?thesis by blast
qed

theorem vocab_maps_bytes_and_merges_witness:
  "\<exists>t. trained_example = Inr t
     \<and> length (vocab (register_special_tokens t end_token)) = 257
     \<and> map_of (vocab (register_special_tokens t end_token)) 256 = Some [97, 97]
     \<and> map_of (vocab (register_special_tokens t end_token)) 100256 = None
     \<and> special_tokens (register_special_tokens t end_token) = end_token
     \<and> inverse_special_tokens (register_special_tokens t end_token) = [(100256, END)]"
proof -
  let ?t = "plain_tokenizer\<lparr>merges := [((97, 97), 256)],
            vocab := AList.update 256 [97, 97] byte_vocab\<rparr>"
  let ?r = "register_special_tokens ?t end_token"
  have r: "reachable ?r" using trained_example_reachable by (rule reachable.registered)
  have m: "merges ?r = [((97, 97), 256)]"
    by (simp add: register_special_tokens_def)
  have sp: "special_tokens ?r = end_token"
    by (simp add: register_special_tokens_def)
  have vr: "vocab (register_special_tokens ?r end_token) = vocab ?r"
    by (simp add: register_special_tokens_def)
  note T = vocab_maps_bytes_and_merges [OF r, of end_token]
  note len0 = T[THEN conjunct2, THEN conjunct1]
  note bytes0 = T[THEN conjunct2, THEN conjunct2, THEN conjunct2, THEN conjunct1]
  note mer0 = T[THEN conjunct2, THEN conjunct2, THEN conjunct2, THEN conjunct2, THEN conjunct1]
  note inv0 = T[THEN conjunct2, THEN conjunct2, THEN conjunct2, THEN conjunct2, THEN conjunct2, THEN conjunct1]
  note none0 = T[THEN conjunct2, THEN conjunct2, THEN conjunct2, THEN conjunct2, THEN conjunct2, THEN conjunct2, THEN conjunct2, THEN conjunct2]
  from len0 m have len: "length (vocab ?r) = 257" by simp
  have "map_of (merges ?r) (97, 97) = Some 256" by (simp add: m)
  with mer0 obtain ba bb where "map_of (vocab ?r) 97 = Some ba" "map_of (vocab ?r) 97 = Some bb"
    "map_of (vocab ?r) 256 = Some (ba @ bb)"
    by blast
  moreover from bytes0[rule_format, of 97] have "map_of (vocab ?r) 97 = Some [97]" by simp
  ultimately have v256: "map_of (vocab ?r) 256 = Some [97, 97]" by simp
  have l: "length (merges ?r) = 1" by (simp add: m)
  have e: "map_of end_token END = Some 100256" by (simp add: end_token_def)
  have "map_of end_token END = Some 100256 \<and> \<not> (0 \<le> (100256::int)
            \<and> (100256::int) < 256 + int (length (merges ?r)))"
    unfolding l using e by simp
  with none0 have none: "map_of (vocab (register_special_tokens ?r end_token)) 100256 = None"
    by blast
  from inv0 sp have inv: "inverse_special_tokens ?r = [(100256, END)]"
    by (simp add: invert_def end_token_def)
  from len v256 none[unfolded vr] sp inv trained_example_value show ?thesis by blast
qed

text \<open>
  Claim C9. \<open>decode\<close> of ids that are all in the vocabulary is the decoded
  concatenation of their byte strings, and an id in neither table raises
  \<open>ValueError\<close>; but the first id that is only in the special-token reverse map
  raises \<open>NameError\<close> (the branch appends to the unbound name \<open>party_bytes\<close>)
  instead of resolving to the bytes of its string.
\<close>

theorem decode_id_cases:
  assumes "known (vocab t) pre"
  shows "decode t pre = Inr (utf8_decode (concat (map (bytes_of (vocab t)) pre)))
       \<and> (map_of (vocab t) idx = None \<and> map_of (inverse_special_tokens t) idx = Some s
            \<longrightarrow> decode t (pre @ idx # rest) = Inl NameError)
       \<and> (map_of (vocab t) idx = None \<and> map_of (inverse_special_tokens t) idx = None
            \<longrightarrow> decode t (pre @ idx # rest) = Inl ValueError)"
proof -
  from assms have k: "\<forall>i \<in> set pre. map_of (vocab t) i \<noteq> None"
    by (simp add: known_def list_all_iff)
  have a: "decode t pre = Inr (utf8_decode (concat (map (bytes_of (vocab t)) pre)))"
    using decode_parts_known[OF assms] by (simp add: decode_def)
  have b: "map_of (vocab t) idx = None \<and> map_of (inverse_special_tokens t) idx = Some s
            \<longrightarrow> decode t (pre @ idx # rest) = Inl NameError"
  proof
    assume "map_of (vocab t) idx = None \<and> map_of (inverse_special_tokens t) idx = Some s"
    then have "decode_parts t (idx # rest) = Inl NameError" by simp
    from decode_parts_append_known[OF k this] show "decode t (pre @ idx # rest) = Inl NameError"
      by (simp add: decode_def)
  qed
  have c: "map_of (vocab t) idx = None \<and> map_of (inverse_special_tokens t) idx = None
            \<longrightarrow> decode t (pre @ idx # rest) = Inl ValueError"
  proof
    assume "map_of (vocab t) idx = None \<and> map_of (inverse_special_tokens t) idx = None"
    then have "decode_parts t (idx # rest) = Inl ValueError" by simp
    from decode_parts_append_known[OF k this] show "decode t (pre @ idx # rest) = Inl ValueError"
      by (simp add: decode_def)
  qed
  from a b c show ?thesis by blast
qed

theorem decode_id_cases_witness:
  "decode (register_special_tokens plain_tokenizer end_token) [104, 105] = Inr (str_of ''hi'')
   \<and> decode (register_special_tokens plain_tokenizer end_token) [104, 105, 100256]
       = Inl NameError
   \<and> decode (register_special_tokens plain_tokenizer end_token) [104, 105, 7000]
       = Inl ValueError"
proof -
  let ?t = "register_special_tokens plain_tokenizer end_token"
  have v: "vocab ?t = byte_vocab"
    by (simp add: register_special_tokens_def plain_tokenizer_def RegexTokenizer_init_def)
  have k: "known (vocab ?t) [104, 105]"
    by (simp add: known_def v map_of_byte_vocab_num)
  have b: "map_of (vocab ?t) 100256 = None" "map_of (vocab ?t) 7000 = None"
    by (auto simp add: v map_of_eq_None_iff byte_vocab_def)
  have c: "map_of (inverse_special_tokens ?t) 100256 = Some END"
    "map_of (inverse_special_tokens ?t) 7000 = None"
    by (simp_all add: register_special_tokens_def invert_def end_token_def)
  have d: "utf8_decode (concat (map (bytes_of (vocab ?t)) [104, 105])) = str_of ''hi''"
    by (simp add: v bytes_of_def map_of_byte_vocab_num str_of_def)
  from decode_id_cases [OF k, of 100256 END "[]"] decode_id_cases [OF k, of 7000 END "[]"] b c d
  show ?thesis by simp
qed




end
